theory Spec2Isabelle
  imports Main
begin

section \<open>Values\<close>

type_synonym url = string

text \<open>
  A user-supplied callback other than \<open>OnEvent\<close> (an \<open>OnEose\<close>, or a notice, error or
  disconnect observer) is an opaque closure: it is identified by a number, and calling it
  is recorded in the trace of the world.  \<open>OnEvent\<close> callbacks are built and wrapped by
  the router, so their type is left open (the type variable \<open>'cb\<close>).
\<close>

type_synonym callback = nat

text \<open>
  The JavaScript numbers the pool handles are delays in milliseconds and \<open>Infinity\<close>.
  Fractions and \<open>NaN\<close> are outside the model.
\<close>

datatype jsnum = Fin int | PosInf

text \<open>\<open>a > b\<close> on these numbers.\<close>

fun js_gt :: "jsnum \<Rightarrow> jsnum \<Rightarrow> bool" where
  "js_gt (Fin a) (Fin b) = (b < a)"
| "js_gt PosInf (Fin b) = True"
| "js_gt a PosInf = False"

text \<open>
  Truthiness of an optional number argument: \<open>undefined\<close> and \<open>0\<close> are falsy.
\<close>

fun truthy :: "jsnum option \<Rightarrow> bool" where
  "truthy None = False"
| "truthy (Some (Fin n)) = (n \<noteq> 0)"
| "truthy (Some PosInf) = True"

text \<open>
  \<open>Math.min\<close> on these numbers; the delay the specification asks the debounce state to
  hold.  It is not used by the code, which compares with \<^verbatim>\<open>>\<close> and assigns.
\<close>

fun js_min :: "jsnum \<Rightarrow> jsnum \<Rightarrow> jsnum" where
  "js_min (Fin a) (Fin b) = Fin (min a b)"
| "js_min PosInf b = b"
| "js_min a PosInf = a"

record nostr_event =
  ev_id :: string
  pubkey :: string
  kind :: nat
  created_at :: nat
  tags :: "(string \<times> string) list"
  content :: string

text \<open>
  A filter with the router's two extra fields (\<open>relay\<close>, \<open>noCache\<close>).  A tag constraint
  \<open>#e: [..]\<close> is a pair of the tag name and the accepted values.
\<close>

record nostr_filter =
  ids :: "string list option"
  authors :: "string list option"
  kinds :: "nat list option"
  since :: "nat option"
  until :: "nat option"
  tag_values :: "(string \<times> string list) list"
  limit :: "nat option"
  relay :: "url option"
  noCache :: bool

text \<open>\<open>Map<string, Filter[]>\<close>: an insertion-ordered map, iterated in key order of insertion.\<close>

type_synonym filters_by_relay = "(url \<times> nostr_filter list) list"

record subscribe_options =
  allowDuplicateEvents :: bool
  allowOlderEvents :: bool

text \<open>\<open>const unique = (arr) => [...new Set(arr)]\<close>: first occurrences, in order.\<close>

definition unique :: "string list \<Rightarrow> string list" where
  "unique arr = fold (\<lambda>x acc. if x \<in> set acc then acc else acc @ [x]) arr []"

section \<open>The collaborators of the pool\<close>

text \<open>
  Modelled from the spec: the event cache (\<open>./event-cache\<close>), whose \<open>addEvent\<close> is an
  idempotent insert keyed by the event's identity.
\<close>

type_synonym event_cache = "nostr_event list"

definition addEvent :: "nostr_event \<Rightarrow> event_cache \<Rightarrow> event_cache" where
  "addEvent e c = (if ev_id e \<in> ev_id ` set c then c else c @ [e])"

text \<open>
  What a callback invocation, or a warning on the console, leaves in the trace.
  \<open>OnEventCall cb e afterEose relay\<close> is \<open>cb(e, afterEose, relay)\<close>; the router calls
  with \<open>relay\<close> undefined.
\<close>

datatype 'cb effect =
    OnEventCall 'cb nostr_event bool "url option"
  | OnEoseCall callback "nostr_event list option" url
  | NoticeCall callback url string
  | ErrorCall callback url string
  | DisconnectCall callback url string
  | ConsoleWarn string

text \<open>
  The functions of \<open>./merge-similar-filters\<close> and \<open>./group-filters-by-relay\<close> that the
  pool calls are parameters of the model.  \<open>groupFiltersByRelayAndEmitCacheHits\<close>
  also returns the callback invocations it makes for cache hits.
\<close>

record 'cb deps =
  mergeSimilarAndRemoveEmptyFilters :: "nostr_filter list \<Rightarrow> nostr_filter list"
  batchFiltersByRelay :: "('cb \<times> filters_by_relay) list \<Rightarrow> 'cb \<times> filters_by_relay"
  groupFiltersByRelayAndEmitCacheHits ::
    "nostr_filter list \<Rightarrow> url list \<Rightarrow> 'cb \<Rightarrow> subscribe_options \<Rightarrow> event_cache option
       \<Rightarrow> ('cb \<times> filters_by_relay) \<times> 'cb effect list"

type_synonym relay_id = nat
type_synonym sub_id = nat
type_synonym timer_id = nat

datatype conn_state = Connecting | Connected | Failed

text \<open>
  Modelled from the spec: a relay connection (\<open>./relay\<close>).  \<open>notice_listener\<close> says
  whether the pool's forwarding listener is registered on it; the error and disconnect
  listeners are the closures of \<open>onerror\<close> and \<open>ondisconnect\<close>, each holding the
  observer and the URL it was registered under.
\<close>

record relay_obj =
  relay_url :: url
  conn :: conn_state
  notice_listener :: bool
  error_listeners :: "(callback \<times> url) list"
  disconnect_listeners :: "(callback \<times> url) list"
  published :: "nostr_event list"
  closed :: bool

text \<open>
  Modelled from the spec: a wire subscription (\<open>Sub\<close> of nostr-tools), with the closure
  of \<open>#subscribeRelay\<close> that listens on it: \<open>sub_onEvent\<close>, \<open>sub_relay\<close> and
  \<open>sub_onEose\<close> are the captured arguments and \<open>eventsBySub\<close> is the captured
  variable.  The eose listener is registered when \<open>sub_onEose\<close> is not \<open>None\<close>.
\<close>

record 'cb sub_obj =
  sub_instance :: relay_id
  sub_filters :: "nostr_filter list"
  sub_relay :: url
  sub_onEvent :: 'cb
  sub_onEose :: "callback option"
  eventsBySub :: "nostr_event list option"
  unsubbed :: bool

record armed_timer =
  tm_id :: timer_id
  tm_delay :: jsnum
  tm_armed_at :: nat

section \<open>The pool and its world\<close>

text \<open>
  The first six fields are those of \<open>class RelayPool\<close>.  The others are the world the
  pool lives in: the relay and subscription objects (an object's identity is its index),
  the timers that are armed, the clock, and the trace of callback invocations.
\<close>

record 'cb world =
  relayByUrl :: "(url \<times> relay_id) list"
  noticecbs :: "callback list"
  eventCache :: "event_cache option"
  minMaxDelayms :: jsnum
  filtersToSubscribe :: "('cb \<times> filters_by_relay) list"
  timer :: "timer_id option"
  relay_objs :: "relay_obj list"
  sub_objs :: "'cb sub_obj list"
  timers :: "armed_timer list"
  next_timer :: timer_id
  clock :: nat
  trace :: "'cb effect list"

text \<open>\<open>relayInit(url)\<close> followed by \<open>connect()\<close>: a new object, connecting.\<close>

definition relayInit :: "url \<Rightarrow> relay_obj" where
  "relayInit u = \<lparr>relay_url = u, conn = Connecting, notice_listener = False,
     error_listeners = [], disconnect_listeners = [], published = [], closed = False\<rparr>"

definition addOrGetRelay :: "url \<Rightarrow> 'cb world \<Rightarrow> relay_id \<times> 'cb world" where
  "addOrGetRelay r w =
     (case map_of (relayByUrl w) r of
        Some origRelayInstance \<Rightarrow> (origRelayInstance, w)
      | None \<Rightarrow>
          (let relayInstance = length (relay_objs w) in
           (relayInstance,
            w\<lparr>relay_objs := relay_objs w @ [relayInit r],
              relayByUrl := relayByUrl w @ [(r, relayInstance)]\<rparr>)))"

text \<open>The loop of the constructor: \<open>for (const relay of ...) this.addOrGetRelay(relay)\<close>.\<close>

definition addRelays :: "url list \<Rightarrow> 'cb world \<Rightarrow> 'cb world" where
  "addRelays rs w = fold (\<lambda>r w. snd (addOrGetRelay r w)) rs w"

definition empty_world :: "bool \<Rightarrow> 'cb world" where
  "empty_world no_cache =
     \<lparr>relayByUrl = [], noticecbs = [],
      eventCache = (if no_cache then None else Some []),
      minMaxDelayms = PosInf, filtersToSubscribe = [], timer = None,
      relay_objs = [], sub_objs = [], timers = [], next_timer = 0, clock = 0, trace = []\<rparr>"

text \<open>\<open>new RelayPool(relays, {noCache})\<close>, in a world with no object and no timer.\<close>

definition new_RelayPool :: "url list option \<Rightarrow> bool \<Rightarrow> 'cb world" where
  "new_RelayPool rs no_cache =
     (case rs of
        None \<Rightarrow> empty_world no_cache
      | Some l \<Rightarrow> addRelays (unique l) (empty_world no_cache))"

text \<open>\<open>instance.publish(event)\<close>.\<close>

definition relay_publish :: "relay_id \<Rightarrow> nostr_event \<Rightarrow> 'cb world \<Rightarrow> 'cb world" where
  "relay_publish i e w =
     (if i < length (relay_objs w)
      then w\<lparr>relay_objs := (relay_objs w)[i := (relay_objs w ! i)\<lparr>published := published (relay_objs w ! i) @ [e]\<rparr>]\<rparr>
      else w)"

definition publish_one :: "nostr_event \<Rightarrow> url \<Rightarrow> 'cb world \<Rightarrow> 'cb world" where
  "publish_one e r w = (let (inst, w1) = addOrGetRelay r w in relay_publish inst e w1)"

definition publish :: "nostr_event \<Rightarrow> url list \<Rightarrow> 'cb world \<Rightarrow> 'cb world" where
  "publish e rs w = fold (publish_one e) (unique rs) w"

text \<open>
  \<open>setTimeout\<close> and \<open>clearTimeout\<close> of the runtime.  The only callback the pool ever
  gives to \<open>setTimeout\<close> is \<open>() => this.sendSubscriptions()\<close>, so an armed timer does
  not store it.  Clearing \<open>undefined\<close>, or a timer that has fired, does nothing.
\<close>

definition setTimeout :: "jsnum \<Rightarrow> 'cb world \<Rightarrow> timer_id \<times> 'cb world" where
  "setTimeout d w =
     (next_timer w,
      w\<lparr>timers := timers w @ [\<lparr>tm_id = next_timer w, tm_delay = d, tm_armed_at = clock w\<rparr>],
        next_timer := Suc (next_timer w)\<rparr>)"

definition clearTimeout :: "timer_id option \<Rightarrow> 'cb world \<Rightarrow> 'cb world" where
  "clearTimeout h w =
     (case h of
        None \<Rightarrow> w
      | Some t \<Rightarrow> w\<lparr>timers := filter (\<lambda>tm. tm_id tm \<noteq> t) (timers w)\<rparr>)"

section \<open>Opening wire subscriptions\<close>

text \<open>
  \<open>#subscribeRelay\<close>.  The object created by \<open>instance.sub(...)\<close> is stored with the
  closure that the two \<open>sub.on\<close> calls register on it.
\<close>

definition subscribeRelay ::
  "'cb deps \<Rightarrow> url \<Rightarrow> nostr_filter list \<Rightarrow> 'cb \<Rightarrow> callback option \<Rightarrow> 'cb world
     \<Rightarrow> sub_id option \<times> 'cb world" where
  "subscribeRelay D r filters onEvent onEose w =
     (let mergedAndRemovedEmptyFilters = mergeSimilarAndRemoveEmptyFilters D filters in
      if length mergedAndRemovedEmptyFilters = 0 then (None, w)
      else
        (let (inst, w1) = addOrGetRelay r w;
             sub = length (sub_objs w1)
         in (Some sub,
             w1\<lparr>sub_objs := sub_objs w1 @
                  [\<lparr>sub_instance = inst, sub_filters = mergedAndRemovedEmptyFilters,
                    sub_relay = r, sub_onEvent = onEvent, sub_onEose = onEose,
                    eventsBySub = Some [], unsubbed = False\<rparr>]\<rparr>)))"

text \<open>The loop of \<open>#subscribeRelays\<close>, with the array \<open>subs\<close> as accumulator.\<close>

fun subscribeRelays_loop ::
  "'cb deps \<Rightarrow> filters_by_relay \<Rightarrow> 'cb \<Rightarrow> callback option \<Rightarrow> sub_id list \<Rightarrow> 'cb world
     \<Rightarrow> sub_id list \<times> 'cb world" where
  "subscribeRelays_loop D [] onEvent onEose subs w = (subs, w)"
| "subscribeRelays_loop D ((r, filters) # rest) onEvent onEose subs w =
     (case subscribeRelay D r filters onEvent onEose w of
        (None, w1) \<Rightarrow> subscribeRelays_loop D rest onEvent onEose subs w1
      | (Some sub, w1) \<Rightarrow> subscribeRelays_loop D rest onEvent onEose (subs @ [sub]) w1)"

text \<open>
  The functions that \<open>subscribe\<close> returns: \<open>() => {}\<close> and
  \<open>() => subs.forEach((sub) => sub.unsub())\<close>.
\<close>

datatype cancel_fn = Noop | UnsubAll "sub_id list"

definition sub_unsub :: "sub_id \<Rightarrow> 'cb world \<Rightarrow> 'cb world" where
  "sub_unsub i w =
     (if i < length (sub_objs w)
      then w\<lparr>sub_objs := (sub_objs w)[i := (sub_objs w ! i)\<lparr>unsubbed := True\<rparr>]\<rparr>
      else w)"

fun call_cancel :: "cancel_fn \<Rightarrow> 'cb world \<Rightarrow> 'cb world" where
  "call_cancel Noop w = w"
| "call_cancel (UnsubAll subs) w = fold sub_unsub subs w"

definition subscribeRelays ::
  "'cb deps \<Rightarrow> filters_by_relay \<Rightarrow> 'cb \<Rightarrow> callback option \<Rightarrow> 'cb world
     \<Rightarrow> cancel_fn \<times> 'cb world" where
  "subscribeRelays D filtersByRelay onEvent onEose w =
     (let (subs, w1) = subscribeRelays_loop D filtersByRelay onEvent onEose [] w
      in (UnsubAll subs, w1))"

section \<open>The scheduler\<close>

definition sendSubscriptions ::
  "'cb deps \<Rightarrow> callback option \<Rightarrow> 'cb world \<Rightarrow> cancel_fn \<times> 'cb world" where
  "sendSubscriptions D onEose w =
     (let w1 = clearTimeout (timer w) w;
          w2 = w1\<lparr>timer := None, minMaxDelayms := PosInf\<rparr>;
          (onEvent, filtersByRelay) = batchFiltersByRelay D (filtersToSubscribe w2);
          w3 = w2\<lparr>filtersToSubscribe := []\<rparr>
      in subscribeRelays D filtersByRelay onEvent onEose w3)"

definition resetTimer :: "jsnum \<Rightarrow> 'cb world \<Rightarrow> 'cb world" where
  "resetTimer maxDelayms w =
     (let w1 = (if js_gt (minMaxDelayms w) maxDelayms
                then w\<lparr>minMaxDelayms := maxDelayms\<rparr> else w);
          w2 = clearTimeout (timer w1) w1;
          w3 = w2\<lparr>timer := None\<rparr>
      in if minMaxDelayms w3 \<noteq> PosInf
         then (let (h, w4) = setTimeout (minMaxDelayms w3) w3 in w4\<lparr>timer := Some h\<rparr>)
         else w3)"

datatype error = Error string

text \<open>
  \<open>subscribe\<close> returns the thrown error or the returned function, and the world as the
  call leaves it.  In the branch \<open>if (maxDelayms)\<close> the argument is a number, since
  \<open>undefined\<close> is falsy.
\<close>

definition subscribe ::
  "'cb deps \<Rightarrow> nostr_filter list \<Rightarrow> url list \<Rightarrow> 'cb \<Rightarrow> jsnum option \<Rightarrow> callback option
     \<Rightarrow> subscribe_options \<Rightarrow> 'cb world \<Rightarrow> (error + cancel_fn) \<times> 'cb world" where
  "subscribe D filters relays onEvent maxDelayms onEose options w =
     (if truthy maxDelayms \<and> onEose \<noteq> None
      then (Inl (Error ''maxDelayms and onEose cannot be used together''), w)
      else
        (let ((dedupedOnEvent, filtersByRelay), hits) =
               groupFiltersByRelayAndEmitCacheHits D filters relays onEvent options (eventCache w);
             w1 = w\<lparr>trace := trace w @ hits\<rparr>;
             w2 = w1\<lparr>filtersToSubscribe :=
                      filtersToSubscribe w1 @ [(dedupedOnEvent, filtersByRelay)]\<rparr>
         in if truthy maxDelayms
            then (Inr Noop, (case maxDelayms of Some d \<Rightarrow> resetTimer d w2 | None \<Rightarrow> w2))
            else (let (unsub, w3) = sendSubscriptions D onEose w2 in (Inr unsub, w3))))"

text \<open>
  \<open>getEventById\<close>: the promise it returns is resolved by the callback \<open>resolve\<close> that it
  gives to \<open>subscribe\<close>, with the options left at their defaults.
\<close>

definition getEventById ::
  "'cb deps \<Rightarrow> string \<Rightarrow> url list \<Rightarrow> jsnum \<Rightarrow> 'cb \<Rightarrow> 'cb world
     \<Rightarrow> (error + cancel_fn) \<times> 'cb world" where
  "getEventById D i relays maxDelayms resolve w =
     subscribe D
       [\<lparr>ids = Some [i], authors = None, kinds = None, since = None, until = None,
         tag_values = [], limit = None, relay = None, noCache = False\<rparr>]
       relays resolve (Some maxDelayms) None
       \<lparr>allowDuplicateEvents = False, allowOlderEvents = False\<rparr> w"

section \<open>Observers, and closing\<close>

definition onnotice :: "callback \<Rightarrow> 'cb world \<Rightarrow> 'cb world" where
  "onnotice cb w = w\<lparr>noticecbs := noticecbs w @ [cb]\<rparr>"

definition relay_on_error :: "callback \<Rightarrow> url \<times> relay_id \<Rightarrow> 'cb world \<Rightarrow> 'cb world" where
  "relay_on_error cb = (\<lambda>(u, i) w.
     if i < length (relay_objs w)
     then w\<lparr>relay_objs := (relay_objs w)[i := (relay_objs w ! i)
            \<lparr>error_listeners := error_listeners (relay_objs w ! i) @ [(cb, u)]\<rparr>]\<rparr>
     else w)"

definition relay_on_disconnect :: "callback \<Rightarrow> url \<times> relay_id \<Rightarrow> 'cb world \<Rightarrow> 'cb world" where
  "relay_on_disconnect cb = (\<lambda>(u, i) w.
     if i < length (relay_objs w)
     then w\<lparr>relay_objs := (relay_objs w)[i := (relay_objs w ! i)
            \<lparr>disconnect_listeners := disconnect_listeners (relay_objs w ! i) @ [(cb, u)]\<rparr>]\<rparr>
     else w)"

definition onerror :: "callback \<Rightarrow> 'cb world \<Rightarrow> 'cb world" where
  "onerror cb w = fold (relay_on_error cb) (relayByUrl w) w"

definition ondisconnect :: "callback \<Rightarrow> 'cb world \<Rightarrow> 'cb world" where
  "ondisconnect cb w = fold (relay_on_disconnect cb) (relayByUrl w) w"

definition relay_close :: "relay_id \<Rightarrow> 'cb world \<Rightarrow> 'cb world" where
  "relay_close i w =
     (if i < length (relay_objs w)
      then w\<lparr>relay_objs := (relay_objs w)[i := (relay_objs w ! i)\<lparr>closed := True\<rparr>]\<rparr>
      else w)"

definition close :: "'cb world \<Rightarrow> 'cb world" where
  "close w = (fold relay_close (map snd (relayByUrl w)) w)\<lparr>relayByUrl := []\<rparr>"

section \<open>What the world does to the pool\<close>

text \<open>
  The promise of \<open>connect()\<close> settles: fulfilled, the pool registers its notice listener
  on the instance; rejected, it warns on the console.
\<close>

definition connect_fulfilled :: "relay_id \<Rightarrow> 'cb world \<Rightarrow> 'cb world" where
  "connect_fulfilled i w =
     (if i < length (relay_objs w) \<and> conn (relay_objs w ! i) = Connecting
      then w\<lparr>relay_objs := (relay_objs w)[i := (relay_objs w ! i)
             \<lparr>conn := Connected, notice_listener := True\<rparr>]\<rparr>
      else w)"

definition connect_rejected :: "relay_id \<Rightarrow> 'cb world \<Rightarrow> 'cb world" where
  "connect_rejected i w =
     (if i < length (relay_objs w) \<and> conn (relay_objs w ! i) = Connecting
      then w\<lparr>relay_objs := (relay_objs w)[i := (relay_objs w ! i)\<lparr>conn := Failed\<rparr>],
             trace := trace w @
               [ConsoleWarn (''failed to connect to relay '' @ relay_url (relay_objs w ! i))]\<rparr>
      else w)"

text \<open>
  An instance emits a notice, an error or a disconnect to the listeners registered on it.
  A notice listener is called with the URL of the instance and the message; the one of the
  pool reads \<open>noticecbs\<close> when the notice arrives.
\<close>

definition relay_emit_notice :: "relay_id \<Rightarrow> string \<Rightarrow> 'cb world \<Rightarrow> 'cb world" where
  "relay_emit_notice i msg w =
     (if i < length (relay_objs w) \<and> notice_listener (relay_objs w ! i)
      then w\<lparr>trace := trace w @
             map (\<lambda>cb. NoticeCall cb (relay_url (relay_objs w ! i)) msg) (noticecbs w)\<rparr>
      else w)"

definition relay_emit_error :: "relay_id \<Rightarrow> string \<Rightarrow> 'cb world \<Rightarrow> 'cb world" where
  "relay_emit_error i msg w =
     (if i < length (relay_objs w)
      then w\<lparr>trace := trace w @
             map (\<lambda>(cb, u). ErrorCall cb u msg) (error_listeners (relay_objs w ! i))\<rparr>
      else w)"

definition relay_emit_disconnect :: "relay_id \<Rightarrow> string \<Rightarrow> 'cb world \<Rightarrow> 'cb world" where
  "relay_emit_disconnect i msg w =
     (if i < length (relay_objs w)
      then w\<lparr>trace := trace w @
             map (\<lambda>(cb, u). DisconnectCall cb u msg) (disconnect_listeners (relay_objs w ! i))\<rparr>
      else w)"

text \<open>
  A wire subscription receives an event, or the end-of-stored-events marker: the bodies
  of the two listeners of \<open>#subscribeRelay\<close>.  A subscription that was unsubscribed
  receives nothing.
\<close>

definition sub_emit_event :: "sub_id \<Rightarrow> nostr_event \<Rightarrow> 'cb world \<Rightarrow> 'cb world" where
  "sub_emit_event i e w =
     (if i < length (sub_objs w) \<and> \<not> unsubbed (sub_objs w ! i)
      then
        (let s = sub_objs w ! i;
             w1 = w\<lparr>eventCache := map_option (addEvent e) (eventCache w)\<rparr>;
             s1 = s\<lparr>eventsBySub := map_option (\<lambda>l. l @ [e]) (eventsBySub s)\<rparr>;
             w2 = w1\<lparr>sub_objs := (sub_objs w1)[i := s1]\<rparr>
         in w2\<lparr>trace := trace w2 @
               [OnEventCall (sub_onEvent s1) e (eventsBySub s1 = None) (Some (sub_relay s1))]\<rparr>)
      else w)"

definition sub_emit_eose :: "sub_id \<Rightarrow> 'cb world \<Rightarrow> 'cb world" where
  "sub_emit_eose i w =
     (if i < length (sub_objs w) \<and> \<not> unsubbed (sub_objs w ! i)
      then
        (let s = sub_objs w ! i in
         case sub_onEose s of
           None \<Rightarrow> w
         | Some onEose \<Rightarrow>
             w\<lparr>trace := trace w @ [OnEoseCall onEose (eventsBySub s) (sub_relay s)],
               sub_objs := (sub_objs w)[i := s\<lparr>eventsBySub := None\<rparr>]\<rparr>)
      else w)"

text \<open>
  An armed timer fires: it is armed no more, and its callback calls
  \<open>this.sendSubscriptions()\<close>, dropping the function returned.
\<close>

definition timer_fires :: "'cb deps \<Rightarrow> timer_id \<Rightarrow> 'cb world \<Rightarrow> 'cb world" where
  "timer_fires D t w =
     (if t \<in> tm_id ` set (timers w)
      then snd (sendSubscriptions D None (w\<lparr>timers := filter (\<lambda>tm. tm_id tm \<noteq> t) (timers w)\<rparr>))
      else w)"

text \<open>
  The runtime replaces a delay that is not between 1 and \<open>2^31 - 1\<close> by 1 millisecond.
\<close>

definition timeout_ms :: "jsnum \<Rightarrow> nat" where
  "timeout_ms d = (case d of Fin n \<Rightarrow> if 1 \<le> n \<and> n \<le> 2147483647 then nat n else 1 | PosInf \<Rightarrow> 1)"

definition deadline :: "armed_timer \<Rightarrow> nat" where
  "deadline tm = tm_armed_at tm + timeout_ms (tm_delay tm)"

text \<open>
  Time passes until \<open>t\<close>: the timers due by then fire, earliest first, each at its
  deadline.  A callback may have cleared a later timer (\<open>timer_fires\<close> checks); none arms
  a new one.
\<close>

definition advance :: "'cb deps \<Rightarrow> nat \<Rightarrow> 'cb world \<Rightarrow> 'cb world" where
  "advance D t w =
     (let due = sort_key deadline (filter (\<lambda>tm. deadline tm \<le> t) (timers w));
          w1 = fold (\<lambda>tm w. timer_fires D (tm_id tm) (w\<lparr>clock := max (clock w) (deadline tm)\<rparr>)) due w
      in w1\<lparr>clock := max (clock w1) t\<rparr>)"

section \<open>Histories\<close>

datatype 'cb action =
    Subscribe "nostr_filter list" "url list" 'cb "jsnum option" "callback option" subscribe_options
  | SendSubscriptions "callback option"
  | AddOrGetRelay url
  | Publish nostr_event "url list"
  | OnNotice callback
  | OnError callback
  | OnDisconnect callback
  | Close
  | CallCancel cancel_fn
  | ConnectFulfilled relay_id
  | ConnectRejected relay_id
  | RelayEmitNotice relay_id string
  | RelayEmitError relay_id string
  | RelayEmitDisconnect relay_id string
  | SubEmitEvent sub_id nostr_event
  | SubEmitEose sub_id
  | TimerFires timer_id
  | Advance nat

fun step :: "'cb deps \<Rightarrow> 'cb action \<Rightarrow> 'cb world \<Rightarrow> 'cb world" where
  "step D (Subscribe fs rs cb d oe opts) w = snd (subscribe D fs rs cb d oe opts w)"
| "step D (SendSubscriptions oe) w = snd (sendSubscriptions D oe w)"
| "step D (AddOrGetRelay r) w = snd (addOrGetRelay r w)"
| "step D (Publish e rs) w = publish e rs w"
| "step D (OnNotice cb) w = onnotice cb w"
| "step D (OnError cb) w = onerror cb w"
| "step D (OnDisconnect cb) w = ondisconnect cb w"
| "step D Close w = close w"
| "step D (CallCancel c) w = call_cancel c w"
| "step D (ConnectFulfilled i) w = connect_fulfilled i w"
| "step D (ConnectRejected i) w = connect_rejected i w"
| "step D (RelayEmitNotice i m) w = relay_emit_notice i m w"
| "step D (RelayEmitError i m) w = relay_emit_error i m w"
| "step D (RelayEmitDisconnect i m) w = relay_emit_disconnect i m w"
| "step D (SubEmitEvent i e) w = sub_emit_event i e w"
| "step D (SubEmitEose i) w = sub_emit_eose i w"
| "step D (TimerFires t) w = timer_fires D t w"
| "step D (Advance t) w = advance D t w"

definition run :: "'cb deps \<Rightarrow> 'cb action list \<Rightarrow> 'cb world \<Rightarrow> 'cb world" where
  "run D acts w = fold (step D) acts w"

section \<open>The router and the filter merge, as the specification describes them\<close>

text \<open>
  The theorems below hold for every \<open>deps\<close>.  Their instances are computed with the
  following one, written from sections 4.2 to 4.4 of the specification.
\<close>

text \<open>
  Modelled from the spec: the \<open>OnEvent\<close> callbacks that the router builds
  (\<open>./on-event-filters\<close>, \<open>./group-filters-by-relay\<close>): a caller's own callback, the wrapper
  of one request that suppresses duplicates and older events as its options say, and the
  merged callback of a batch.
\<close>

datatype on_event =
    Caller nat
  | Wrapped on_event subscribe_options
  | Merged "on_event list"

text \<open>
  Modelled from the spec: the \<open>Lookup\<close> of the event cache (\<open>./event-cache\<close>), the AND of
  the constraints that are present.
\<close>

definition matches :: "nostr_filter \<Rightarrow> nostr_event \<Rightarrow> bool" where
  "matches f e \<longleftrightarrow>
     (case ids f of None \<Rightarrow> True | Some l \<Rightarrow> ev_id e \<in> set l) \<and>
     (case authors f of None \<Rightarrow> True | Some l \<Rightarrow> pubkey e \<in> set l) \<and>
     (case kinds f of None \<Rightarrow> True | Some l \<Rightarrow> kind e \<in> set l) \<and>
     (case since f of None \<Rightarrow> True | Some t \<Rightarrow> t \<le> created_at e) \<and>
     (case until f of None \<Rightarrow> True | Some t \<Rightarrow> created_at e \<le> t) \<and>
     list_all (\<lambda>(t, vs). list_ex (\<lambda>v. (t, v) \<in> set (tags e)) vs) (tag_values f)"

definition lookup :: "nostr_filter \<Rightarrow> event_cache \<Rightarrow> nostr_event list" where
  "lookup f c = filter (matches f) c"

text \<open>
  Modelled from the spec: \<open>mergeSimilarAndRemoveEmptyFilters\<close> (\<open>./merge-similar-filters\<close>).
  A filter with no constraining field, or with a constraining list of size zero, is
  dropped; two filters that differ only in their identity lists (or only in their author
  lists, or only in their kind lists) become one with the union of the lists.
\<close>

definition unconstrained :: "nostr_filter \<Rightarrow> bool" where
  "unconstrained f \<longleftrightarrow>
     ids f = None \<and> authors f = None \<and> kinds f = None \<and> since f = None \<and> until f = None \<and>
     tag_values f = []"

definition matches_nothing :: "nostr_filter \<Rightarrow> bool" where
  "matches_nothing f \<longleftrightarrow>
     unconstrained f \<or> ids f = Some [] \<or> authors f = Some [] \<or> kinds f = Some [] \<or>
     list_ex (\<lambda>(t, vs). vs = []) (tag_values f)"

definition union_list :: "'a list \<Rightarrow> 'a list \<Rightarrow> 'a list" where
  "union_list a b = a @ filter (\<lambda>x. x \<notin> set a) b"

definition combine :: "nostr_filter \<Rightarrow> nostr_filter \<Rightarrow> nostr_filter option" where
  "combine g f =
     (case (ids g, ids f) of
        (Some a, Some b) \<Rightarrow>
          if g\<lparr>ids := None\<rparr> = f\<lparr>ids := None\<rparr> then Some (g\<lparr>ids := Some (union_list a b)\<rparr>) else None
      | _ \<Rightarrow>
     (case (authors g, authors f) of
        (Some a, Some b) \<Rightarrow>
          if g\<lparr>authors := None\<rparr> = f\<lparr>authors := None\<rparr>
          then Some (g\<lparr>authors := Some (union_list a b)\<rparr>) else None
      | _ \<Rightarrow>
     (case (kinds g, kinds f) of
        (Some a, Some b) \<Rightarrow>
          if g\<lparr>kinds := None\<rparr> = f\<lparr>kinds := None\<rparr>
          then Some (g\<lparr>kinds := Some (union_list a b)\<rparr>) else None
      | _ \<Rightarrow> None)))"

fun merge_into :: "nostr_filter \<Rightarrow> nostr_filter list \<Rightarrow> nostr_filter list" where
  "merge_into f [] = [f]"
| "merge_into f (g # gs) =
     (case combine g f of Some h \<Rightarrow> h # gs | None \<Rightarrow> g # merge_into f gs)"

definition spec_merge :: "nostr_filter list \<Rightarrow> nostr_filter list" where
  "spec_merge fs = fold merge_into (filter (\<lambda>f. \<not> matches_nothing f) fs) []"

text \<open>Appending filters to the entry of a relay in a relay-to-filters mapping.\<close>

fun add_filters :: "url \<Rightarrow> nostr_filter list \<Rightarrow> filters_by_relay \<Rightarrow> filters_by_relay" where
  "add_filters r fs [] = [(r, fs)]"
| "add_filters r fs ((r', gs) # m) =
     (if r' = r then (r', gs @ fs) # m else (r', gs) # add_filters r fs m)"

text \<open>
  Modelled from the spec: \<open>groupFiltersByRelayAndEmitCacheHits\<close>
  (\<open>./group-filters-by-relay\<close>).  A filter goes to its own relay if it has one, else to the
  relays of the request.  For each filter and relay, unless the filter or the pool opted
  out of the cache, the cached events that match are delivered at once; unless duplicates
  are allowed, the identities served from the cache are taken out of the filter, and a
  filter that was only an identity lookup, all of it served, is dropped.
\<close>

definition narrow :: "nostr_filter \<Rightarrow> nostr_event list \<Rightarrow> nostr_filter option" where
  "narrow f hits =
     (if hits = [] then Some f
      else
        (case ids f of
           None \<Rightarrow> Some f
         | Some l \<Rightarrow>
             (let rest = filter (\<lambda>i. i \<notin> ev_id ` set hits) l in
              if rest = [] \<and> unconstrained (f\<lparr>ids := None\<rparr>) then None
              else Some (f\<lparr>ids := Some rest\<rparr>))))"

definition group_one ::
  "on_event \<Rightarrow> subscribe_options \<Rightarrow> event_cache option \<Rightarrow> nostr_filter \<Rightarrow> url
     \<Rightarrow> filters_by_relay \<times> on_event effect list \<Rightarrow> filters_by_relay \<times> on_event effect list" where
  "group_one cb options cache f r = (\<lambda>(m, calls).
     (case (if noCache f then None else cache) of
        None \<Rightarrow> (add_filters r [f] m, calls)
      | Some c \<Rightarrow>
          (let hits = lookup f c;
               calls' = calls @ map (\<lambda>e. OnEventCall cb e False None) hits
           in case (if allowDuplicateEvents options then Some f else narrow f hits) of
                None \<Rightarrow> (m, calls')
              | Some g \<Rightarrow> (add_filters r [g] m, calls'))))"

definition spec_group ::
  "nostr_filter list \<Rightarrow> url list \<Rightarrow> on_event \<Rightarrow> subscribe_options \<Rightarrow> event_cache option
     \<Rightarrow> (on_event \<times> filters_by_relay) \<times> on_event effect list" where
  "spec_group filters relays onEvent options cache =
     (let cb = Wrapped onEvent options;
          (m, calls) =
            fold (\<lambda>f acc. fold (group_one cb options cache f)
                    (case relay f of Some r \<Rightarrow> [r] | None \<Rightarrow> relays) acc)
                 filters ([], [])
      in ((cb, m), calls))"

text \<open>
  Modelled from the spec: \<open>batchFiltersByRelay\<close> (\<open>./group-filters-by-relay\<close>): one merged
  callback, and one mapping holding, for each relay, the filters of every request of the
  batch.
\<close>

definition spec_batch :: "(on_event \<times> filters_by_relay) list \<Rightarrow> on_event \<times> filters_by_relay" where
  "spec_batch batch =
     (Merged (map fst batch),
      fold (\<lambda>(cb, m) acc. fold (\<lambda>(r, fs) acc. add_filters r fs acc) m acc) batch [])"

definition spec_deps :: "on_event deps" where
  "spec_deps = \<lparr>mergeSimilarAndRemoveEmptyFilters = spec_merge,
     batchFiltersByRelay = spec_batch,
     groupFiltersByRelayAndEmitCacheHits = spec_group\<rparr>"

section \<open>Invariants and observations\<close>

text \<open>
  The registry is well formed: one entry per URL, one instance per entry, every instance
  an object of the world.
\<close>

definition registry_ok :: "'cb world \<Rightarrow> bool" where
  "registry_ok w \<longleftrightarrow>
     distinct (map fst (relayByUrl w)) \<and> distinct (map snd (relayByUrl w)) \<and>
     list_all (\<lambda>(u, i). i < length (relay_objs w)) (relayByUrl w)"

text \<open>At most one timer is armed, and it is the one whose handle the pool holds.\<close>

definition timers_ok :: "'cb world \<Rightarrow> bool" where
  "timers_ok w \<longleftrightarrow>
     length (timers w) \<le> 1 \<and> list_all (\<lambda>tm. timer w = Some (tm_id tm)) (timers w)"

text \<open>
  What holds of the pool in every world it can reach (\<open>new_RelayPool_ok\<close> and
  \<open>run_pool_ok\<close> below).
\<close>

definition pool_ok :: "'cb world \<Rightarrow> bool" where
  "pool_ok w \<longleftrightarrow> registry_ok w \<and> timers_ok w"


text \<open>
  The relays of a mapping whose filters do not merge to nothing, each with its merged
  filters: what the loop of \<open>#subscribeRelays\<close> opens a wire subscription for.
\<close>

definition opened_by ::
  "'cb deps \<Rightarrow> filters_by_relay \<Rightarrow> (url \<times> nostr_filter list) list" where
  "opened_by D m =
     map (\<lambda>(r, fs). (r, mergeSimilarAndRemoveEmptyFilters D fs))
       (filter (\<lambda>(r, fs). mergeSimilarAndRemoveEmptyFilters D fs \<noteq> []) m)"

text \<open>The actions that register an error observer, and those that register a disconnect observer.\<close>

fun registers_error :: "'cb action \<Rightarrow> bool" where
  "registers_error (OnError cb) = True"
| "registers_error a = False"

fun registers_disconnect :: "'cb action \<Rightarrow> bool" where
  "registers_disconnect (OnDisconnect cb) = True"
| "registers_disconnect a = False"

text \<open>
  Between two worlds, the relay objects kept what \<open>f\<close> reads of them, and the objects
  added since are, to \<open>f\<close>, as \<open>relayInit\<close> made them.
\<close>

definition grows_by_new :: "(relay_obj \<Rightarrow> 'x) \<Rightarrow> 'cb world \<Rightarrow> 'cb world \<Rightarrow> bool" where
  "grows_by_new f w w' \<longleftrightarrow>
     (\<exists>us. map f (relay_objs w') = map f (relay_objs w) @ map (\<lambda>u. f (relayInit u)) us)"

text \<open>The actions in which a wire subscription receives an event or the end marker.\<close>

fun wire_emission :: "'cb action \<Rightarrow> bool" where
  "wire_emission (SubEmitEvent i e) = True"
| "wire_emission (SubEmitEose i) = True"
| "wire_emission a = False"

text \<open>The events that a history delivers to the wire subscription \<open>i\<close>, in order.\<close>

fun events_on :: "sub_id \<Rightarrow> 'cb action list \<Rightarrow> nostr_event list" where
  "events_on i [] = []"
| "events_on i (SubEmitEvent j e # acts) =
     (if j = i then e # events_on i acts else events_on i acts)"
| "events_on i (a # acts) = events_on i acts"

section \<open>Example inputs and worlds\<close>

text \<open>
  Two identity lookups, a filter whose identity list has size zero, the default options,
  and two events.
\<close>

definition filter_e1 :: nostr_filter where
  "filter_e1 = \<lparr>ids = Some [''e1''], authors = None, kinds = None, since = None,
     until = None, tag_values = [], limit = None, relay = None, noCache = False\<rparr>"

definition filter_e2 :: nostr_filter where
  "filter_e2 = \<lparr>ids = Some [''e2''], authors = None, kinds = None, since = None,
     until = None, tag_values = [], limit = None, relay = None, noCache = False\<rparr>"

definition filter_no_ids :: nostr_filter where
  "filter_no_ids = \<lparr>ids = Some [], authors = None, kinds = None, since = None,
     until = None, tag_values = [], limit = None, relay = None, noCache = False\<rparr>"

definition no_options :: subscribe_options where
  "no_options = \<lparr>allowDuplicateEvents = False, allowOlderEvents = False\<rparr>"

definition event_1 :: nostr_event where
  "event_1 = \<lparr>ev_id = ''e1'', pubkey = ''p'', kind = 1, created_at = 10, tags = [],
     content = ''x''\<rparr>"

definition event_2 :: nostr_event where
  "event_2 = \<lparr>ev_id = ''e2'', pubkey = ''p'', kind = 1, created_at = 20, tags = [],
     content = ''y''\<rparr>"

text \<open>
  A new pool with a cache, after a debounced request with a delay of 500 ms; after a
  second one with 100 ms; after a third, whose only filter has an identity list of size
  zero, with 300 ms.
\<close>

definition world_500 :: "on_event world" where
  "world_500 = snd (subscribe spec_deps [filter_e1] [''wss://a''] (Caller 0) (Some (Fin 500)) None
      no_options (new_RelayPool None False))"

definition world_500_100 :: "on_event world" where
  "world_500_100 = snd (subscribe spec_deps [filter_e2] [''wss://a'', ''wss://b''] (Caller 1)
      (Some (Fin 100)) None no_options world_500)"

definition world_pending3 :: "on_event world" where
  "world_pending3 = snd (subscribe spec_deps [filter_no_ids] [''wss://c''] (Caller 2)
      (Some (Fin 300)) None no_options world_500_100)"

text \<open>
  A new pool after one request without delay, with an \<open>onEose\<close>, over three relays: the
  wire subscriptions 0, 1 and 2 are open.
\<close>

definition world_three_relays :: "on_event world" where
  "world_three_relays = snd (subscribe spec_deps [filter_e1] [''wss://a'', ''wss://b'', ''wss://c'']
      (Caller 0) None (Some 7) no_options (new_RelayPool None False))"

section \<open>The registry\<close>

lemma unique_fold:
  "set (fold (\<lambda>x acc. if x \<in> set acc then acc else acc @ [x]) xs acc) = set acc \<union> set xs"
  "distinct acc \<Longrightarrow> distinct (fold (\<lambda>x acc. if x \<in> set acc then acc else acc @ [x]) xs acc)"
  by (induction xs arbitrary: acc) auto

lemma set_unique: "set (unique xs) = set xs"
  by (simp add: unique_def unique_fold)

lemma distinct_unique: "distinct (unique xs)"
  by (simp add: unique_def unique_fold)

lemma map_of_None_iff: "map_of m k = None \<longleftrightarrow> k \<notin> fst ` set m"
  by (simp add: map_of_eq_None_iff)

lemma map_of_Some_key: "map_of m k = Some v \<Longrightarrow> k \<in> fst ` set m"
  by (metis domI dom_map_of_conv_image_fst)

lemma addOrGetRelay_keys:
  "map fst (relayByUrl (snd (addOrGetRelay r w))) =
     (if r \<in> set (map fst (relayByUrl w)) then map fst (relayByUrl w) else map fst (relayByUrl w) @ [r])"
  by (auto simp: addOrGetRelay_def Let_def map_of_eq_None_iff split: option.splits
        dest: map_of_Some_key)

lemma addOrGetRelay_lookup:
  "map_of (relayByUrl (snd (addOrGetRelay r w))) r = Some (fst (addOrGetRelay r w))"
  by (auto simp: addOrGetRelay_def Let_def map_of_eq_None_iff map_add_def split: option.splits
        dest: map_of_Some_key)

lemma addOrGetRelay_keeps:
  "map_of (relayByUrl w) u = Some i \<Longrightarrow> map_of (relayByUrl (snd (addOrGetRelay r w))) u = Some i"
  by (auto simp: addOrGetRelay_def Let_def split: option.splits)

lemma addRelays_keeps:
  "map_of (relayByUrl w) u = Some i \<Longrightarrow> map_of (relayByUrl (addRelays rs w)) u = Some i"
  unfolding addRelays_def
  by (induction rs arbitrary: w) (auto simp: addOrGetRelay_keeps)

lemma addRelays_keys:
  "map fst (relayByUrl (addRelays rs w)) =
     fold (\<lambda>x acc. if x \<in> set acc then acc else acc @ [x]) rs (map fst (relayByUrl w))"
  unfolding addRelays_def
  by (induction rs arbitrary: w) (auto simp: addOrGetRelay_keys)

lemma addOrGetRelay_again:
  "addOrGetRelay r (snd (addOrGetRelay r w)) = (fst (addOrGetRelay r w), snd (addOrGetRelay r w))"
  using addOrGetRelay_lookup[of r w]
  by (simp add: addOrGetRelay_def[of r "snd (addOrGetRelay r w)"])

lemma addOrGetRelay_ok: "registry_ok w \<Longrightarrow> registry_ok (snd (addOrGetRelay r w))"
  by (auto simp: registry_ok_def addOrGetRelay_def Let_def map_of_eq_None_iff list_all_iff
       split: option.splits)

lemma addOrGetRelay_frame [simp]:
  "noticecbs (snd (addOrGetRelay r w)) = noticecbs w"
  "eventCache (snd (addOrGetRelay r w)) = eventCache w"
  "minMaxDelayms (snd (addOrGetRelay r w)) = minMaxDelayms w"
  "filtersToSubscribe (snd (addOrGetRelay r w)) = filtersToSubscribe w"
  "timer (snd (addOrGetRelay r w)) = timer w"
  "sub_objs (snd (addOrGetRelay r w)) = sub_objs w"
  "timers (snd (addOrGetRelay r w)) = timers w"
  "next_timer (snd (addOrGetRelay r w)) = next_timer w"
  "clock (snd (addOrGetRelay r w)) = clock w"
  "trace (snd (addOrGetRelay r w)) = trace w"
  by (simp_all add: addOrGetRelay_def Let_def split: option.splits)

lemma addOrGetRelay_objs:
  "relay_objs (snd (addOrGetRelay r w)) =
     (if r \<in> fst ` set (relayByUrl w) then relay_objs w else relay_objs w @ [relayInit r])"
  by (auto simp: addOrGetRelay_def Let_def map_of_eq_None_iff split: option.splits
        dest: map_of_Some_key)

lemma subscribeRelay_frame [simp]:
  "noticecbs (snd (subscribeRelay D r fs cb oe w)) = noticecbs w"
  "eventCache (snd (subscribeRelay D r fs cb oe w)) = eventCache w"
  "minMaxDelayms (snd (subscribeRelay D r fs cb oe w)) = minMaxDelayms w"
  "filtersToSubscribe (snd (subscribeRelay D r fs cb oe w)) = filtersToSubscribe w"
  "timer (snd (subscribeRelay D r fs cb oe w)) = timer w"
  "timers (snd (subscribeRelay D r fs cb oe w)) = timers w"
  "next_timer (snd (subscribeRelay D r fs cb oe w)) = next_timer w"
  "clock (snd (subscribeRelay D r fs cb oe w)) = clock w"
  "trace (snd (subscribeRelay D r fs cb oe w)) = trace w"
  by (simp_all add: subscribeRelay_def Let_def split_beta)

lemma subscribeRelay_ok:
  "registry_ok w \<Longrightarrow> registry_ok (snd (subscribeRelay D r fs cb oe w))"
  using addOrGetRelay_ok[of w r]
  by (simp add: subscribeRelay_def Let_def split_beta registry_ok_def)

lemma loop_preserves:
  assumes "\<And>r fs w. f (snd (subscribeRelay D r fs cb oe w)) = f w"
  shows "f (snd (subscribeRelays_loop D m cb oe subs w)) = f w"
proof (induction m arbitrary: subs w)
  case Nil
  show ?case by simp
next
  case (Cons a m)
  obtain r fs where a: "a = (r, fs)" by force
  obtain x w1 where sr: "subscribeRelay D r fs cb oe w = (x, w1)" by force
  have "f w1 = f w" using assms[of r fs w] sr by simp
  then show ?case using Cons.IH sr a by (cases x) simp_all
qed

lemma loop_frame [simp]:
  "noticecbs (snd (subscribeRelays_loop D m cb oe subs w)) = noticecbs w"
  "eventCache (snd (subscribeRelays_loop D m cb oe subs w)) = eventCache w"
  "minMaxDelayms (snd (subscribeRelays_loop D m cb oe subs w)) = minMaxDelayms w"
  "filtersToSubscribe (snd (subscribeRelays_loop D m cb oe subs w)) = filtersToSubscribe w"
  "timer (snd (subscribeRelays_loop D m cb oe subs w)) = timer w"
  "timers (snd (subscribeRelays_loop D m cb oe subs w)) = timers w"
  "next_timer (snd (subscribeRelays_loop D m cb oe subs w)) = next_timer w"
  "clock (snd (subscribeRelays_loop D m cb oe subs w)) = clock w"
  "trace (snd (subscribeRelays_loop D m cb oe subs w)) = trace w"
  by (rule loop_preserves, simp)+

lemma loop_ok:
  "registry_ok w \<Longrightarrow> registry_ok (snd (subscribeRelays_loop D m cb oe subs w))"
proof (induction m arbitrary: subs w)
  case Nil
  then show ?case by simp
next
  case (Cons a m)
  obtain r fs where a: "a = (r, fs)" by force
  obtain x w1 where sr: "subscribeRelay D r fs cb oe w = (x, w1)" by force
  have "registry_ok w1" using subscribeRelay_ok[OF Cons.prems, of D r fs cb oe] sr by simp
  then show ?case using Cons.IH sr a by (cases x) simp_all
qed

lemma clearTimeout_frame [simp]:
  "relayByUrl (clearTimeout h w) = relayByUrl w"
  "relay_objs (clearTimeout h w) = relay_objs w"
  "sub_objs (clearTimeout h w) = sub_objs w"
  "noticecbs (clearTimeout h w) = noticecbs w"
  "eventCache (clearTimeout h w) = eventCache w"
  "minMaxDelayms (clearTimeout h w) = minMaxDelayms w"
  "filtersToSubscribe (clearTimeout h w) = filtersToSubscribe w"
  "timer (clearTimeout h w) = timer w"
  "next_timer (clearTimeout h w) = next_timer w"
  "clock (clearTimeout h w) = clock w"
  "trace (clearTimeout h w) = trace w"
  by (simp_all add: clearTimeout_def split: option.splits)

lemma clearTimeout_cancels: "timers_ok w \<Longrightarrow> timers (clearTimeout (timer w) w) = []"
  by (cases "timers w") (auto simp: timers_ok_def clearTimeout_def split: option.splits)

lemma js_gt_min: "(if js_gt a b then b else a) = js_min a b"
  by (cases a; cases b) auto

lemma resetTimer_timers:
  assumes "timers_ok w"
  shows "timers (resetTimer d w) =
           (if js_min (minMaxDelayms w) d = PosInf then []
            else [\<lparr>tm_id = next_timer w, tm_delay = js_min (minMaxDelayms w) d,
                   tm_armed_at = clock w\<rparr>])"
    and "timer (resetTimer d w) =
           (if js_min (minMaxDelayms w) d = PosInf then None else Some (next_timer w))"
    and "minMaxDelayms (resetTimer d w) = js_min (minMaxDelayms w) d"
proof -
  let ?w1 = "if js_gt (minMaxDelayms w) d then w\<lparr>minMaxDelayms := d\<rparr> else w"
  have ok1: "timers_ok ?w1" using assms by (simp add: timers_ok_def)
  have m1: "minMaxDelayms ?w1 = js_min (minMaxDelayms w) d"
    using js_gt_min[of "minMaxDelayms w" d] by (simp split: if_splits)
  have c: "timers (clearTimeout (timer ?w1) ?w1) = []" using clearTimeout_cancels[OF ok1] .
  have f: "next_timer ?w1 = next_timer w" "clock ?w1 = clock w" by simp_all
  show "timers (resetTimer d w) =
           (if js_min (minMaxDelayms w) d = PosInf then []
            else [\<lparr>tm_id = next_timer w, tm_delay = js_min (minMaxDelayms w) d,
                   tm_armed_at = clock w\<rparr>])"
    using c m1 f unfolding resetTimer_def Let_def setTimeout_def by (simp add: split_beta)
  show "timer (resetTimer d w) =
           (if js_min (minMaxDelayms w) d = PosInf then None else Some (next_timer w))"
    using c m1 f unfolding resetTimer_def Let_def setTimeout_def by (simp add: split_beta)
  show "minMaxDelayms (resetTimer d w) = js_min (minMaxDelayms w) d"
    using c m1 f unfolding resetTimer_def Let_def setTimeout_def by (simp add: split_beta)
qed

lemma resetTimer_frame [simp]:
  "relayByUrl (resetTimer d w) = relayByUrl w"
  "relay_objs (resetTimer d w) = relay_objs w"
  "sub_objs (resetTimer d w) = sub_objs w"
  "noticecbs (resetTimer d w) = noticecbs w"
  "eventCache (resetTimer d w) = eventCache w"
  "filtersToSubscribe (resetTimer d w) = filtersToSubscribe w"
  "clock (resetTimer d w) = clock w"
  "trace (resetTimer d w) = trace w"
  by (simp_all add: resetTimer_def Let_def setTimeout_def split_beta)

lemma resetTimer_ok: "timers_ok w \<Longrightarrow> timers_ok (resetTimer d w)"
  by (simp add: timers_ok_def[of "resetTimer d w"] resetTimer_timers)

lemma subscribeRelay_empty:
  "mergeSimilarAndRemoveEmptyFilters D fs = [] \<Longrightarrow> subscribeRelay D r fs cb oe w = (None, w)"
  by (simp add: subscribeRelay_def)

lemma subscribeRelay_opens:
  "mergeSimilarAndRemoveEmptyFilters D fs \<noteq> [] \<Longrightarrow>
   subscribeRelay D r fs cb oe w =
     (Some (length (sub_objs w)),
      (snd (addOrGetRelay r w))\<lparr>sub_objs := sub_objs w @
         [\<lparr>sub_instance = fst (addOrGetRelay r w),
           sub_filters = mergeSimilarAndRemoveEmptyFilters D fs,
           sub_relay = r, sub_onEvent = cb, sub_onEose = oe,
           eventsBySub = Some [], unsubbed = False\<rparr>]\<rparr>)"
  by (simp add: subscribeRelay_def Let_def split_beta)

lemma subscribeRelay_keeps:
  "map_of (relayByUrl w) u = Some i \<Longrightarrow>
   map_of (relayByUrl (snd (subscribeRelay D r fs cb oe w))) u = Some i"
  by (cases "mergeSimilarAndRemoveEmptyFilters D fs = []")
     (simp_all add: subscribeRelay_empty subscribeRelay_opens addOrGetRelay_keeps)

lemma loop_keeps:
  "map_of (relayByUrl w) u = Some i \<Longrightarrow>
   map_of (relayByUrl (snd (subscribeRelays_loop D m cb oe subs w))) u = Some i"
proof (induction m arbitrary: subs w)
  case Nil
  then show ?case by simp
next
  case (Cons a m)
  obtain r fs where a: "a = (r, fs)" by force
  obtain x w1 where sr: "subscribeRelay D r fs cb oe w = (x, w1)" by force
  have "map_of (relayByUrl w1) u = Some i"
    using subscribeRelay_keeps[OF Cons.prems, of D r fs cb oe] sr by simp
  then show ?case using Cons.IH sr a by (cases x) simp_all
qed

lemma upt_shift: "n # [Suc n ..< Suc n + k] = [n ..< n + Suc k]"
proof -
  have "n < n + Suc k" by simp
  then have "[n ..< n + Suc k] = n # [Suc n ..< n + Suc k]" by (rule upt_conv_Cons)
  moreover have "n + Suc k = Suc n + k" by simp
  ultimately show ?thesis by (simp only:)
qed

lemma loop_result:
  "\<exists>news.
     sub_objs (snd (subscribeRelays_loop D m cb oe subs w)) = sub_objs w @ news \<and>
     fst (subscribeRelays_loop D m cb oe subs w) =
       subs @ [length (sub_objs w) ..< length (sub_objs w) + length news] \<and>
     map (\<lambda>s. (sub_relay s, sub_filters s)) news = opened_by D m \<and>
     (\<forall>s \<in> set news. sub_onEvent s = cb \<and> sub_onEose s = oe \<and> eventsBySub s = Some [] \<and>
        \<not> unsubbed s \<and>
        map_of (relayByUrl (snd (subscribeRelays_loop D m cb oe subs w))) (sub_relay s) =
          Some (sub_instance s))"
proof (induction m arbitrary: subs w)
  case Nil
  show ?case by (simp add: opened_by_def)
next
  case (Cons a m)
  obtain r fs where a: "a = (r, fs)" by force
  show ?case
  proof (cases "mergeSimilarAndRemoveEmptyFilters D fs = []")
    case True
    then show ?thesis
      using Cons.IH[of subs w] a by (simp add: subscribeRelay_empty opened_by_def)
  next
    case False
    let ?s = "\<lparr>sub_instance = fst (addOrGetRelay r w),
           sub_filters = mergeSimilarAndRemoveEmptyFilters D fs,
           sub_relay = r, sub_onEvent = cb, sub_onEose = oe,
           eventsBySub = Some [], unsubbed = False\<rparr>"
    let ?w1 = "(snd (addOrGetRelay r w))\<lparr>sub_objs := sub_objs w @ [?s]\<rparr>"
    let ?L = "subscribeRelays_loop D m cb oe (subs @ [length (sub_objs w)]) ?w1"
    have step: "subscribeRelays_loop D (a # m) cb oe subs w = ?L"
      using a False by (simp add: subscribeRelay_opens)
    obtain news where n:
      "sub_objs (snd ?L) = sub_objs ?w1 @ news"
      "fst ?L = (subs @ [length (sub_objs w)]) @
          [length (sub_objs ?w1) ..< length (sub_objs ?w1) + length news]"
      "map (\<lambda>s. (sub_relay s, sub_filters s)) news = opened_by D m"
      "\<forall>s \<in> set news. sub_onEvent s = cb \<and> sub_onEose s = oe \<and> eventsBySub s = Some [] \<and>
        \<not> unsubbed s \<and> map_of (relayByUrl (snd ?L)) (sub_relay s) = Some (sub_instance s)"
      using Cons.IH[of "subs @ [length (sub_objs w)]" ?w1] by blast
    have reg: "map_of (relayByUrl ?w1) r = Some (fst (addOrGetRelay r w))"
      using addOrGetRelay_lookup[of r w] by simp
    have here: "map_of (relayByUrl (snd ?L)) r = Some (fst (addOrGetRelay r w))"
      using loop_keeps[OF reg] .
    have 1: "sub_objs (snd ?L) = sub_objs w @ (?s # news)" using n(1) by simp
    have l1: "length (sub_objs ?w1) = Suc (length (sub_objs w))" by simp
    have "fst ?L = subs @ (length (sub_objs w) #
        [Suc (length (sub_objs w)) ..< Suc (length (sub_objs w)) + length news])"
      using n(2) unfolding l1 by (simp only: append_assoc append_Cons append_Nil)
    then have 2:
      "fst ?L = subs @ [length (sub_objs w) ..< length (sub_objs w) + length (?s # news)]"
      by (simp only: upt_shift length_Cons)
    have 3: "map (\<lambda>s. (sub_relay s, sub_filters s)) (?s # news) = opened_by D (a # m)"
      using n(3) a False by (simp add: opened_by_def)
    have 4: "\<forall>s \<in> set (?s # news). sub_onEvent s = cb \<and> sub_onEose s = oe \<and>
        eventsBySub s = Some [] \<and> \<not> unsubbed s \<and>
        map_of (relayByUrl (snd ?L)) (sub_relay s) = Some (sub_instance s)"
      using n(4) here by simp
    show ?thesis unfolding step using 1 2 3 4 by blast
  qed
qed

lemma sendSubscriptions_unfold:
  "sendSubscriptions D oe w =
     (UnsubAll (fst (subscribeRelays_loop D (snd (batchFiltersByRelay D (filtersToSubscribe w)))
         (fst (batchFiltersByRelay D (filtersToSubscribe w))) oe []
         ((clearTimeout (timer w) w)\<lparr>timer := None, minMaxDelayms := PosInf,
            filtersToSubscribe := []\<rparr>))),
      snd (subscribeRelays_loop D (snd (batchFiltersByRelay D (filtersToSubscribe w)))
         (fst (batchFiltersByRelay D (filtersToSubscribe w))) oe []
         ((clearTimeout (timer w) w)\<lparr>timer := None, minMaxDelayms := PosInf,
            filtersToSubscribe := []\<rparr>)))"
  by (simp add: sendSubscriptions_def subscribeRelays_def Let_def split_beta)

lemma sendSubscriptions_frame [simp]:
  "noticecbs (snd (sendSubscriptions D oe w)) = noticecbs w"
  "eventCache (snd (sendSubscriptions D oe w)) = eventCache w"
  "minMaxDelayms (snd (sendSubscriptions D oe w)) = PosInf"
  "filtersToSubscribe (snd (sendSubscriptions D oe w)) = []"
  "timer (snd (sendSubscriptions D oe w)) = None"
  "timers (snd (sendSubscriptions D oe w)) = timers (clearTimeout (timer w) w)"
  "next_timer (snd (sendSubscriptions D oe w)) = next_timer w"
  "clock (snd (sendSubscriptions D oe w)) = clock w"
  "trace (snd (sendSubscriptions D oe w)) = trace w"
  by (simp_all add: sendSubscriptions_unfold)

lemma sendSubscriptions_ok:
  "registry_ok w \<Longrightarrow> registry_ok (snd (sendSubscriptions D oe w))"
  unfolding sendSubscriptions_unfold snd_conv
  by (rule loop_ok) (simp add: registry_ok_def)

lemma sendSubscriptions_timers_ok:
  "timers_ok w \<Longrightarrow> timers_ok (snd (sendSubscriptions D oe w))"
  by (simp add: timers_ok_def[of "snd (sendSubscriptions D oe w)"] clearTimeout_cancels)

section \<open>Claims about \<open>subscribe\<close>\<close>

text \<open>
  C1, as amended.  When \<open>maxDelayms\<close> is truthy (a number other than 0) and \<open>onEose\<close> is
  supplied, \<open>subscribe\<close> throws the configuration error and leaves the whole world as it
  was: nothing was appended to the pending batch, no wire subscription was opened, no
  connection was created, no callback was called.
\<close>

theorem subscribe_rejects_delay_with_onEose:
  assumes "truthy maxDelayms" and "onEose \<noteq> None"
  shows "subscribe D filters relays onEvent maxDelayms onEose options w =
           (Inl (Error ''maxDelayms and onEose cannot be used together''), w)"
  using assms by (simp add: subscribe_def)

text \<open>An instance of C1 as amended: a delay of 100 ms together with an \<open>onEose\<close>.\<close>

theorem subscribe_rejects_delay_with_onEose_witness:
  "truthy (Some (Fin 100)) \<and> Some (7::nat) \<noteq> None \<and>
   subscribe spec_deps [filter_e1] [''wss://a''] (Caller 0) (Some (Fin 100)) (Some 7) no_options
       (new_RelayPool None False) =
     (Inl (Error ''maxDelayms and onEose cannot be used together''), new_RelayPool None False)"
  using subscribe_rejects_delay_with_onEose
          [of "Some (Fin 100)" "Some 7" spec_deps "[filter_e1]" "[''wss://a'']" "Caller 0"
              no_options "new_RelayPool None False"]
  by simp

text \<open>
  C1 as stated fails when the delay supplied is 0: with an \<open>onEose\<close> supplied too, the call
  returns an unsubscribe function, having created the connection and opened the wire
  subscription.
\<close>

theorem subscribe_zero_delay_with_onEose_counterexample:
  "fst (subscribe spec_deps [filter_e1] [''wss://a''] (Caller 0) (Some (Fin 0)) (Some 7)
          no_options (new_RelayPool None False)) = Inr (UnsubAll [0]) \<and>
   map (\<lambda>s. (sub_relay s, sub_filters s))
     (sub_objs (snd (subscribe spec_deps [filter_e1] [''wss://a''] (Caller 0) (Some (Fin 0))
          (Some 7) no_options (new_RelayPool None False)))) = [(''wss://a'', [filter_e1])] \<and>
   map fst (relayByUrl (snd (subscribe spec_deps [filter_e1] [''wss://a''] (Caller 0)
          (Some (Fin 0)) (Some 7) no_options (new_RelayPool None False)))) = [''wss://a'']"
  by code_simp

lemma sub_unsub_frame:
  "sub_unsub i w = w\<lparr>sub_objs := sub_objs (sub_unsub i w)\<rparr>"
  "length (sub_objs (sub_unsub i w)) = length (sub_objs w)"
  by (simp_all add: sub_unsub_def)

lemma cancel_all_frame: "fold sub_unsub subs w = w\<lparr>sub_objs := sub_objs (fold sub_unsub subs w)\<rparr>"
proof (induction subs arbitrary: w)
  case Nil
  show ?case by simp
next
  case (Cons i subs)
  have "fold sub_unsub subs (sub_unsub i w) =
          (sub_unsub i w)\<lparr>sub_objs := sub_objs (fold sub_unsub subs (sub_unsub i w))\<rparr>"
    using Cons.IH[of "sub_unsub i w"] .
  also have "\<dots> = w\<lparr>sub_objs := sub_objs (fold sub_unsub subs (sub_unsub i w))\<rparr>"
    by (subst sub_unsub_frame(1)) simp
  finally show ?case by simp
qed

lemma cancel_all_length: "length (sub_objs (fold sub_unsub subs w)) = length (sub_objs w)"
  by (induction subs arbitrary: w) (simp_all add: sub_unsub_frame(2))

lemma cancel_all_nth:
  "j < length (sub_objs w) \<Longrightarrow>
   sub_objs (fold sub_unsub subs w) ! j =
     (if j \<in> set subs then (sub_objs w ! j)\<lparr>unsubbed := True\<rparr> else sub_objs w ! j)"
proof (induction subs arbitrary: w)
  case Nil
  show ?case by simp
next
  case (Cons i subs)
  have l: "j < length (sub_objs (sub_unsub i w))" using Cons.prems by (simp add: sub_unsub_frame(2))
  have one: "sub_objs (sub_unsub i w) ! j =
       (if j = i then (sub_objs w ! j)\<lparr>unsubbed := True\<rparr> else sub_objs w ! j)"
    using Cons.prems by (simp add: sub_unsub_def)
  have "sub_objs (fold sub_unsub (i # subs) w) ! j =
          (if j \<in> set subs then (sub_objs (sub_unsub i w) ! j)\<lparr>unsubbed := True\<rparr>
           else sub_objs (sub_unsub i w) ! j)"
    using Cons.IH[OF l] by simp
  then show ?case unfolding one by (cases "j = i") simp_all
qed

lemma clearTimeout_timers:
  "timers (clearTimeout h w) = filter (\<lambda>tm. Some (tm_id tm) \<noteq> h) (timers w)"
  by (cases h) (simp_all add: clearTimeout_def)

lemma flush_result:
  assumes "sendSubscriptions D onEose w = (unsub, w')"
      and "batchFiltersByRelay D (filtersToSubscribe w) = (onEvent, filtersByRelay)"
  shows "take (length (sub_objs w)) (sub_objs w') = sub_objs w"
    and "length (sub_objs w) \<le> length (sub_objs w')"
    and "map (\<lambda>s. (sub_relay s, sub_filters s)) (drop (length (sub_objs w)) (sub_objs w')) =
           opened_by D filtersByRelay"
    and "\<forall>s \<in> set (drop (length (sub_objs w)) (sub_objs w')).
           sub_onEvent s = onEvent \<and> sub_onEose s = onEose \<and> eventsBySub s = Some [] \<and>
           \<not> unsubbed s \<and> map_of (relayByUrl w') (sub_relay s) = Some (sub_instance s)"
    and "unsub = UnsubAll [length (sub_objs w) ..< length (sub_objs w')]"
proof -
  let ?w0 = "(clearTimeout (timer w) w)\<lparr>timer := None, minMaxDelayms := PosInf,
               filtersToSubscribe := []\<rparr>"
  let ?L = "subscribeRelays_loop D filtersByRelay onEvent onEose [] ?w0"
  have u: "unsub = UnsubAll (fst ?L)" and w': "w' = snd ?L"
    using assms by (simp_all add: sendSubscriptions_unfold)
  obtain news where n:
    "sub_objs (snd ?L) = sub_objs ?w0 @ news"
    "fst ?L = [] @ [length (sub_objs ?w0) ..< length (sub_objs ?w0) + length news]"
    "map (\<lambda>s. (sub_relay s, sub_filters s)) news = opened_by D filtersByRelay"
    "\<forall>s \<in> set news. sub_onEvent s = onEvent \<and> sub_onEose s = onEose \<and>
       eventsBySub s = Some [] \<and> \<not> unsubbed s \<and>
       map_of (relayByUrl (snd ?L)) (sub_relay s) = Some (sub_instance s)"
    using loop_result[of D filtersByRelay onEvent onEose "[]" ?w0] by blast
  have s0: "sub_objs ?w0 = sub_objs w" by simp
  have so: "sub_objs w' = sub_objs w @ news" using n(1) w' s0 by simp
  show "take (length (sub_objs w)) (sub_objs w') = sub_objs w" using so by simp
  show "length (sub_objs w) \<le> length (sub_objs w')" using so by simp
  show "map (\<lambda>s. (sub_relay s, sub_filters s)) (drop (length (sub_objs w)) (sub_objs w')) =
           opened_by D filtersByRelay" using so n(3) by simp
  show "\<forall>s \<in> set (drop (length (sub_objs w)) (sub_objs w')).
           sub_onEvent s = onEvent \<and> sub_onEose s = onEose \<and> eventsBySub s = Some [] \<and>
           \<not> unsubbed s \<and> map_of (relayByUrl w') (sub_relay s) = Some (sub_instance s)"
    using so n(4) w' by simp
  show "unsub = UnsubAll [length (sub_objs w) ..< length (sub_objs w')]"
    using u n(2) so s0 by simp
qed

lemma unsub_range:
  assumes "j < length (sub_objs v)"
  shows "sub_objs (call_cancel (UnsubAll [a ..< b]) v) ! j =
           (if a \<le> j \<and> j < b then (sub_objs v ! j)\<lparr>unsubbed := True\<rparr> else sub_objs v ! j)"
  using cancel_all_nth[OF assms, of "[a ..< b]"] by simp

section \<open>Claims about the flush\<close>

text \<open>
  C3, as amended.  \<open>sendSubscriptions\<close> cancels the timer whose handle the pool holds (so
  that no timer is left armed), resets the debounce state, passes the whole pending batch
  to \<open>batchFiltersByRelay\<close>, empties the pending batch, and opens, in the order of the
  mapping, one wire subscription for each relay of the mapping whose filters do not merge
  to nothing: each with the merged filters, the merged callback, the \<open>onEose\<close> given, an
  empty accumulator, and the instance registered for its relay.  The function returned
  unsubscribes the wire subscriptions opened by this flush, and only them, in whatever
  world it is called.
\<close>

theorem sendSubscriptions_flushes:
  assumes "sendSubscriptions D onEose w = (unsub, w')"
      and "batchFiltersByRelay D (filtersToSubscribe w) = (onEvent, filtersByRelay)"
  shows "timers w' = filter (\<lambda>tm. Some (tm_id tm) \<noteq> timer w) (timers w) \<and>
         (timers_ok w \<longrightarrow> timers w' = []) \<and>
         timer w' = None \<and> minMaxDelayms w' = PosInf \<and>
         filtersToSubscribe w' = [] \<and>
         take (length (sub_objs w)) (sub_objs w') = sub_objs w \<and>
         map (\<lambda>s. (sub_relay s, sub_filters s)) (drop (length (sub_objs w)) (sub_objs w')) =
           opened_by D filtersByRelay \<and>
         (\<forall>s \<in> set (drop (length (sub_objs w)) (sub_objs w')).
            sub_onEvent s = onEvent \<and> sub_onEose s = onEose \<and> eventsBySub s = Some [] \<and>
            \<not> unsubbed s \<and> map_of (relayByUrl w') (sub_relay s) = Some (sub_instance s)) \<and>
         unsub = UnsubAll [length (sub_objs w) ..< length (sub_objs w')] \<and>
         (\<forall>v j. j < length (sub_objs v) \<longrightarrow>
            sub_objs (call_cancel unsub v) ! j =
              (if length (sub_objs w) \<le> j \<and> j < length (sub_objs w')
               then (sub_objs v ! j)\<lparr>unsubbed := True\<rparr> else sub_objs v ! j))"
proof -
  have w': "w' = snd (sendSubscriptions D onEose w)" using assms(1) by simp
  have t: "timers w' = filter (\<lambda>tm. Some (tm_id tm) \<noteq> timer w) (timers w)"
    unfolding w' by (simp add: clearTimeout_timers)
  have t0: "timers_ok w \<longrightarrow> timers w' = []"
    unfolding w' by (simp add: clearTimeout_cancels)
  have p: "timer w' = None" "minMaxDelayms w' = PosInf" "filtersToSubscribe w' = []"
    unfolding w' by simp_all
  note r = flush_result[OF assms]
  have c: "\<forall>v j. j < length (sub_objs v) \<longrightarrow>
            sub_objs (call_cancel unsub v) ! j =
              (if length (sub_objs w) \<le> j \<and> j < length (sub_objs w')
               then (sub_objs v ! j)\<lparr>unsubbed := True\<rparr> else sub_objs v ! j)"
    unfolding r(5) using unsub_range by blast
  show ?thesis using t t0 p r(1) r(3) r(4) r(5) c by blast
qed

lemma addOrGetRelay_other:
  "r' \<noteq> r \<Longrightarrow> map_of (relayByUrl (snd (addOrGetRelay r' w))) r = map_of (relayByUrl w) r"
  by (simp add: addOrGetRelay_def Let_def map_add_def split: option.splits)

lemma addOrGetRelay_new_objs:
  "\<exists>news. relay_objs (snd (addOrGetRelay r' w)) = relay_objs w @ news \<and>
          relay_url ` set news \<subseteq> {r'}"
  by (simp add: addOrGetRelay_objs relayInit_def)

lemma subscribeRelay_other:
  "r' \<noteq> r \<Longrightarrow>
   map_of (relayByUrl (snd (subscribeRelay D r' fs cb oe w))) r = map_of (relayByUrl w) r"
  by (cases "mergeSimilarAndRemoveEmptyFilters D fs = []")
     (simp_all add: subscribeRelay_empty subscribeRelay_opens addOrGetRelay_other)

lemma subscribeRelay_new_objs:
  "\<exists>news. relay_objs (snd (subscribeRelay D r' fs cb oe w)) = relay_objs w @ news \<and>
          relay_url ` set news \<subseteq> fst ` set (opened_by D [(r', fs)])"
proof (cases "mergeSimilarAndRemoveEmptyFilters D fs = []")
  case True
  then show ?thesis by (simp add: subscribeRelay_empty)
next
  case False
  then show ?thesis
    using addOrGetRelay_new_objs[of r' w] by (simp add: subscribeRelay_opens opened_by_def)
qed

lemma opened_by_Cons: "opened_by D (a # m) = opened_by D [a] @ opened_by D m"
  by (simp add: opened_by_def)

lemma loop_other:
  "r \<notin> fst ` set (opened_by D m) \<Longrightarrow>
   map_of (relayByUrl (snd (subscribeRelays_loop D m cb oe subs w))) r = map_of (relayByUrl w) r"
proof (induction m arbitrary: subs w)
  case Nil
  show ?case by simp
next
  case (Cons a m)
  obtain r' fs where a: "a = (r', fs)" by force
  obtain x w1 where sr: "subscribeRelay D r' fs cb oe w = (x, w1)" by force
  have rest: "r \<notin> fst ` set (opened_by D m)"
    using Cons.prems opened_by_Cons[of D a m] by auto
  have "map_of (relayByUrl w1) r = map_of (relayByUrl w) r"
  proof (cases "mergeSimilarAndRemoveEmptyFilters D fs = []")
    case True
    then show ?thesis using sr by (simp add: subscribeRelay_empty)
  next
    case False
    then have "r' \<noteq> r" using Cons.prems a by (auto simp: opened_by_def)
    then show ?thesis using subscribeRelay_other[of r' r D fs cb oe w] sr by simp
  qed
  then show ?case using Cons.IH[OF rest] sr a by (cases x) simp_all
qed

lemma loop_new_objs:
  "\<exists>news. relay_objs (snd (subscribeRelays_loop D m cb oe subs w)) = relay_objs w @ news \<and>
          relay_url ` set news \<subseteq> fst ` set (opened_by D m)"
proof (induction m arbitrary: subs w)
  case Nil
  show ?case by simp
next
  case (Cons a m)
  obtain r' fs where a: "a = (r', fs)" by force
  obtain x w1 where sr: "subscribeRelay D r' fs cb oe w = (x, w1)" by force
  obtain n1 where n1: "relay_objs w1 = relay_objs w @ n1"
      "relay_url ` set n1 \<subseteq> fst ` set (opened_by D [a])"
    using subscribeRelay_new_objs[of D r' fs cb oe w] sr a by auto
  have step: "snd (subscribeRelays_loop D (a # m) cb oe subs w) =
      snd (subscribeRelays_loop D m cb oe (case x of None \<Rightarrow> subs | Some i \<Rightarrow> subs @ [i]) w1)"
    using sr a by (cases x) simp_all
  obtain n2 where n2:
      "relay_objs (snd (subscribeRelays_loop D m cb oe
          (case x of None \<Rightarrow> subs | Some i \<Rightarrow> subs @ [i]) w1)) = relay_objs w1 @ n2"
      "relay_url ` set n2 \<subseteq> fst ` set (opened_by D m)"
    using Cons.IH by blast
  have "relay_objs (snd (subscribeRelays_loop D (a # m) cb oe subs w)) = relay_objs w @ (n1 @ n2)"
    using step n1(1) n2(1) by simp
  moreover have "relay_url ` set (n1 @ n2) \<subseteq> fst ` set (opened_by D (a # m))"
    using n1(2) n2(2) opened_by_Cons[of D a m] by auto
  ultimately show ?case by blast
qed

lemma not_opened:
  assumes "distinct (map fst m)" "(r, fs) \<in> set m" "mergeSimilarAndRemoveEmptyFilters D fs = []"
  shows "r \<notin> fst ` set (opened_by D m)"
proof
  assume "r \<in> fst ` set (opened_by D m)"
  then obtain fs' where "(r, fs') \<in> set m" "mergeSimilarAndRemoveEmptyFilters D fs' \<noteq> []"
    by (auto simp: opened_by_def)
  moreover have "fs' = fs"
    using assms(1,2) \<open>(r, fs') \<in> set m\<close> by (meson eq_key_imp_eq_value)
  ultimately show False using assms(3) by simp
qed

text \<open>
  C7.  Let a relay of the flushed mapping (a \<open>Map\<close>, so its keys are distinct) have
  filters that merge to nothing.  Then \<open>#subscribeRelay\<close> returns \<open>undefined\<close> for it
  and changes nothing; no wire subscription opened by the flush is on that relay; the
  registry has for that relay what it had before the flush; and no relay object created
  during the flush is a connection to it.
\<close>

theorem empty_merge_opens_nothing:
  assumes "sendSubscriptions D onEose w = (unsub, w')"
      and "batchFiltersByRelay D (filtersToSubscribe w) = (onEvent, filtersByRelay)"
      and "distinct (map fst filtersByRelay)"
      and "(r, fs) \<in> set filtersByRelay"
      and "mergeSimilarAndRemoveEmptyFilters D fs = []"
  shows "subscribeRelay D r fs onEvent onEose v = (None, v) \<and>
         (\<forall>s \<in> set (drop (length (sub_objs w)) (sub_objs w')). sub_relay s \<noteq> r) \<and>
         map_of (relayByUrl w') r = map_of (relayByUrl w) r \<and>
         take (length (relay_objs w)) (relay_objs w') = relay_objs w \<and>
         (\<forall>x \<in> set (drop (length (relay_objs w)) (relay_objs w')). relay_url x \<noteq> r)"
proof -
  let ?w0 = "(clearTimeout (timer w) w)\<lparr>timer := None, minMaxDelayms := PosInf,
               filtersToSubscribe := []\<rparr>"
  let ?L = "subscribeRelays_loop D filtersByRelay onEvent onEose [] ?w0"
  have w': "w' = snd ?L" using assms(1,2) by (simp add: sendSubscriptions_unfold)
  have no: "r \<notin> fst ` set (opened_by D filtersByRelay)" using not_opened[OF assms(3-5)] .
  have a: "subscribeRelay D r fs onEvent onEose v = (None, v)"
    using assms(5) by (rule subscribeRelay_empty)
  have "fst ` set (opened_by D filtersByRelay) =
      sub_relay ` set (drop (length (sub_objs w)) (sub_objs w'))"
    using flush_result(3)[OF assms(1,2)]
    by (metis (no_types, lifting) image_image list.set_map fst_conv image_cong)
  then have b: "\<forall>s \<in> set (drop (length (sub_objs w)) (sub_objs w')). sub_relay s \<noteq> r"
    using no by auto
  have c: "map_of (relayByUrl w') r = map_of (relayByUrl w) r"
    unfolding w' using loop_other[OF no, of onEvent onEose "[]" ?w0] by simp
  obtain news where n: "relay_objs w' = relay_objs w @ news"
      "relay_url ` set news \<subseteq> fst ` set (opened_by D filtersByRelay)"
    unfolding w' using loop_new_objs[of D filtersByRelay onEvent onEose "[]" ?w0] by auto
  have d: "take (length (relay_objs w)) (relay_objs w') = relay_objs w" using n(1) by simp
  have e: "\<forall>x \<in> set (drop (length (relay_objs w)) (relay_objs w')). relay_url x \<noteq> r"
    using n no by auto
  show ?thesis using a b c d e by blast
qed

text \<open>
  An instance of C3 as amended: the flush of three pending requests over three relays,
  one of which is left without a wire subscription.
\<close>

theorem sendSubscriptions_flushes_witness:
  "sendSubscriptions spec_deps None world_pending3 =
     (UnsubAll [0, 1], snd (sendSubscriptions spec_deps None world_pending3)) \<and>
   batchFiltersByRelay spec_deps (filtersToSubscribe world_pending3) =
     (Merged [Wrapped (Caller 0) no_options, Wrapped (Caller 1) no_options,
              Wrapped (Caller 2) no_options],
      [(''wss://a'', [filter_e1, filter_e2]), (''wss://b'', [filter_e2]),
       (''wss://c'', [filter_no_ids])]) \<and>
   timers world_pending3 = [\<lparr>tm_id = 2, tm_delay = Fin 100, tm_armed_at = 0\<rparr>] \<and>
   timers (snd (sendSubscriptions spec_deps None world_pending3)) = [] \<and>
   timer (snd (sendSubscriptions spec_deps None world_pending3)) = None \<and>
   minMaxDelayms (snd (sendSubscriptions spec_deps None world_pending3)) = PosInf \<and>
   filtersToSubscribe (snd (sendSubscriptions spec_deps None world_pending3)) = [] \<and>
   map (\<lambda>s. (sub_relay s, sub_filters s))
       (sub_objs (snd (sendSubscriptions spec_deps None world_pending3))) =
     [(''wss://a'', [filter_e1\<lparr>ids := Some [''e1'', ''e2'']\<rparr>]), (''wss://b'', [filter_e2])] \<and>
   map unsubbed (sub_objs (call_cancel (UnsubAll [0, 1])
       (snd (sendSubscriptions spec_deps None world_pending3)))) = [True, True]"
proof -
  have h1: "sendSubscriptions spec_deps None world_pending3 =
     (UnsubAll [0, 1], snd (sendSubscriptions spec_deps None world_pending3))"
    by code_simp
  have h2: "batchFiltersByRelay spec_deps (filtersToSubscribe world_pending3) =
     (Merged [Wrapped (Caller 0) no_options, Wrapped (Caller 1) no_options,
              Wrapped (Caller 2) no_options],
      [(''wss://a'', [filter_e1, filter_e2]), (''wss://b'', [filter_e2]),
       (''wss://c'', [filter_no_ids])])"
    by code_simp
  have before: "timers world_pending3 = [\<lparr>tm_id = 2, tm_delay = Fin 100, tm_armed_at = 0\<rparr>]"
    by code_simp
  have ok: "timers_ok world_pending3" by code_simp
  have opened: "map (\<lambda>s. (sub_relay s, sub_filters s))
       (sub_objs (snd (sendSubscriptions spec_deps None world_pending3))) =
     [(''wss://a'', [filter_e1\<lparr>ids := Some [''e1'', ''e2'']\<rparr>]), (''wss://b'', [filter_e2])]"
    by code_simp
  have cancelled: "map unsubbed (sub_objs (call_cancel (UnsubAll [0, 1])
       (snd (sendSubscriptions spec_deps None world_pending3)))) = [True, True]"
    by code_simp
  from sendSubscriptions_flushes[OF h1 h2] ok
  have "timers (snd (sendSubscriptions spec_deps None world_pending3)) = [] \<and>
        timer (snd (sendSubscriptions spec_deps None world_pending3)) = None \<and>
        minMaxDelayms (snd (sendSubscriptions spec_deps None world_pending3)) = PosInf \<and>
        filtersToSubscribe (snd (sendSubscriptions spec_deps None world_pending3)) = []"
    by blast
  with h1 h2 before opened cancelled show ?thesis by blast
qed

text \<open>
  C3 as stated fails on that flush: the mapping has three relays and two wire
  subscriptions are opened.
\<close>

theorem sendSubscriptions_skips_relay_counterexample:
  "map fst (snd (batchFiltersByRelay spec_deps (filtersToSubscribe world_pending3))) =
     [''wss://a'', ''wss://b'', ''wss://c''] \<and>
   map sub_relay (sub_objs (snd (sendSubscriptions spec_deps None world_pending3))) =
     [''wss://a'', ''wss://b'']"
  by code_simp

text \<open>An instance of C7: the relay \<open>wss://c\<close> in the flush of the three pending requests.\<close>

theorem empty_merge_opens_nothing_witness:
  "sendSubscriptions spec_deps None world_pending3 =
     (UnsubAll [0, 1], snd (sendSubscriptions spec_deps None world_pending3)) \<and>
   batchFiltersByRelay spec_deps (filtersToSubscribe world_pending3) =
     (Merged [Wrapped (Caller 0) no_options, Wrapped (Caller 1) no_options,
              Wrapped (Caller 2) no_options],
      [(''wss://a'', [filter_e1, filter_e2]), (''wss://b'', [filter_e2]),
       (''wss://c'', [filter_no_ids])]) \<and>
   mergeSimilarAndRemoveEmptyFilters spec_deps [filter_no_ids] = [] \<and>
   subscribeRelay spec_deps ''wss://c'' [filter_no_ids]
       (Merged [Wrapped (Caller 0) no_options, Wrapped (Caller 1) no_options,
                Wrapped (Caller 2) no_options]) None world_pending3 =
     (None, world_pending3) \<and>
   map_of (relayByUrl (snd (sendSubscriptions spec_deps None world_pending3))) ''wss://c'' = None \<and>
   map relay_url (relay_objs (snd (sendSubscriptions spec_deps None world_pending3))) =
     [''wss://a'', ''wss://b'']"
proof -
  let ?m = "[(''wss://a'', [filter_e1, filter_e2]), (''wss://b'', [filter_e2]),
       (''wss://c'', [filter_no_ids])]"
  have h1: "sendSubscriptions spec_deps None world_pending3 =
     (UnsubAll [0, 1], snd (sendSubscriptions spec_deps None world_pending3))"
    by code_simp
  have h2: "batchFiltersByRelay spec_deps (filtersToSubscribe world_pending3) =
     (Merged [Wrapped (Caller 0) no_options, Wrapped (Caller 1) no_options,
              Wrapped (Caller 2) no_options], ?m)"
    by code_simp
  have h3: "distinct (map fst ?m)" by simp
  have h4: "(''wss://c'', [filter_no_ids]) \<in> set ?m" by simp
  have h5: "mergeSimilarAndRemoveEmptyFilters spec_deps [filter_no_ids] = []" by code_simp
  have before: "map_of (relayByUrl world_pending3) ''wss://c'' = None" by code_simp
  have objs: "map relay_url (relay_objs (snd (sendSubscriptions spec_deps None world_pending3))) =
     [''wss://a'', ''wss://b'']" by code_simp
  from empty_merge_opens_nothing[OF h1 h2 h3 h4 h5, of world_pending3] before
  have "subscribeRelay spec_deps ''wss://c'' [filter_no_ids]
       (Merged [Wrapped (Caller 0) no_options, Wrapped (Caller 1) no_options,
                Wrapped (Caller 2) no_options]) None world_pending3 =
          (None, world_pending3) \<and>
        map_of (relayByUrl (snd (sendSubscriptions spec_deps None world_pending3))) ''wss://c'' =
          None"
    by simp
  with h1 h2 h5 objs show ?thesis by blast
qed

lemma subscribe_debounced:
  "truthy (Some d) \<Longrightarrow>
   subscribe D filters relays onEvent (Some d) None options w =
     (Inr Noop,
      resetTimer d
        (w\<lparr>trace := trace w @
               snd (groupFiltersByRelayAndEmitCacheHits D filters relays onEvent options
                      (eventCache w)),
           filtersToSubscribe := filtersToSubscribe w @
               [fst (groupFiltersByRelayAndEmitCacheHits D filters relays onEvent options
                      (eventCache w))]\<rparr>))"
  by (simp add: subscribe_def Let_def split_beta)

lemma subscribe_immediate:
  "\<not> truthy maxDelayms \<Longrightarrow>
   subscribe D filters relays onEvent maxDelayms onEose options w =
     (Inr (fst (sendSubscriptions D onEose
              (w\<lparr>trace := trace w @
                     snd (groupFiltersByRelayAndEmitCacheHits D filters relays onEvent options
                            (eventCache w)),
                 filtersToSubscribe := filtersToSubscribe w @
                     [fst (groupFiltersByRelayAndEmitCacheHits D filters relays onEvent options
                            (eventCache w))]\<rparr>))),
      snd (sendSubscriptions D onEose
              (w\<lparr>trace := trace w @
                     snd (groupFiltersByRelayAndEmitCacheHits D filters relays onEvent options
                            (eventCache w)),
                 filtersToSubscribe := filtersToSubscribe w @
                     [fst (groupFiltersByRelayAndEmitCacheHits D filters relays onEvent options
                            (eventCache w))]\<rparr>)))"
  by (simp add: subscribe_def Let_def split_beta)

text \<open>
  C6.  With a truthy \<open>maxDelayms\<close>, \<open>subscribe\<close> returns \<open>() => {}\<close> (whenever it returns a
  function at all), and calling it changes no world.  With no \<open>maxDelayms\<close>, or a falsy
  one, \<open>subscribe\<close> has flushed when it returns: the pending batch is empty, the wire
  subscriptions of the whole batch, the new request included, have been opened, and the
  function returned unsubscribes every one of them and no other, in whatever world it is
  called.
\<close>

theorem subscribe_cancel_functions:
  assumes "truthy maxDelayms"
      and "\<not> truthy noDelay"
      and "subscribe D filters relays onEvent noDelay onEose options w = (res, w')"
  shows "fst (subscribe D filters1 relays1 onEvent1 maxDelayms None options1 w1) = Inr Noop \<and>
         (fst (subscribe D filters1 relays1 onEvent1 maxDelayms onEose1 options1 w1) = Inr c
            \<longrightarrow> c = Noop) \<and>
         call_cancel Noop v = v \<and>
         res = Inr (UnsubAll [length (sub_objs w) ..< length (sub_objs w')]) \<and>
         filtersToSubscribe w' = [] \<and>
         take (length (sub_objs w)) (sub_objs w') = sub_objs w \<and>
         map (\<lambda>s. (sub_relay s, sub_filters s)) (drop (length (sub_objs w)) (sub_objs w')) =
           opened_by D (snd (batchFiltersByRelay D (filtersToSubscribe w @
             [fst (groupFiltersByRelayAndEmitCacheHits D filters relays onEvent options
                    (eventCache w))]))) \<and>
         (\<forall>j. j < length (sub_objs v) \<longrightarrow>
            sub_objs (call_cancel (UnsubAll [length (sub_objs w) ..< length (sub_objs w')]) v) ! j =
              (if length (sub_objs w) \<le> j \<and> j < length (sub_objs w')
               then (sub_objs v ! j)\<lparr>unsubbed := True\<rparr> else sub_objs v ! j))"
proof -
  obtain d where d: "maxDelayms = Some d" using assms(1) by (cases maxDelayms) auto
  have a: "fst (subscribe D filters1 relays1 onEvent1 maxDelayms None options1 w1) = Inr Noop"
    using assms(1) unfolding d by (simp add: subscribe_debounced)
  have b: "fst (subscribe D filters1 relays1 onEvent1 maxDelayms onEose1 options1 w1) = Inr c
            \<longrightarrow> c = Noop"
    using assms(1) by (cases onEose1) (auto simp: subscribe_def Let_def split_beta)
  let ?g = "groupFiltersByRelayAndEmitCacheHits D filters relays onEvent options (eventCache w)"
  let ?w2 = "w\<lparr>trace := trace w @ snd ?g, filtersToSubscribe := filtersToSubscribe w @ [fst ?g]\<rparr>"
  have r: "res = Inr (fst (sendSubscriptions D onEose ?w2))"
    and w': "w' = snd (sendSubscriptions D onEose ?w2)"
    using assms(3) subscribe_immediate[OF assms(2), of D filters relays onEvent onEose options w]
    by simp_all
  have s: "sendSubscriptions D onEose ?w2 = (fst (sendSubscriptions D onEose ?w2), w')"
    using w' by simp
  have bt: "batchFiltersByRelay D (filtersToSubscribe ?w2) =
     (fst (batchFiltersByRelay D (filtersToSubscribe ?w2)),
      snd (batchFiltersByRelay D (filtersToSubscribe ?w2)))" by simp
  note f = flush_result[OF s bt]
  have so: "sub_objs ?w2 = sub_objs w" "filtersToSubscribe ?w2 = filtersToSubscribe w @ [fst ?g]"
    by simp_all
  have e: "res = Inr (UnsubAll [length (sub_objs w) ..< length (sub_objs w')])"
    using r f(5) so by simp
  have p: "filtersToSubscribe w' = []" unfolding w' by simp
  have t: "take (length (sub_objs w)) (sub_objs w') = sub_objs w" using f(1) so by simp
  have m: "map (\<lambda>s. (sub_relay s, sub_filters s)) (drop (length (sub_objs w)) (sub_objs w')) =
           opened_by D (snd (batchFiltersByRelay D (filtersToSubscribe w @ [fst ?g])))"
    using f(3) so by simp
  have u: "\<forall>j. j < length (sub_objs v) \<longrightarrow>
            sub_objs (call_cancel (UnsubAll [length (sub_objs w) ..< length (sub_objs w')]) v) ! j =
              (if length (sub_objs w) \<le> j \<and> j < length (sub_objs w')
               then (sub_objs v ! j)\<lparr>unsubbed := True\<rparr> else sub_objs v ! j)"
    using unsub_range by blast
  show ?thesis using a b e p t m u by simp
qed

text \<open>
  An instance of C6: a debounced call, and a call without delay made while two debounced
  requests are pending.
\<close>

theorem subscribe_cancel_functions_witness:
  "truthy (Some (Fin 500)) \<and> \<not> truthy None \<and>
   fst (subscribe spec_deps [filter_e1] [''wss://a''] (Caller 0) (Some (Fin 500)) None no_options
          (new_RelayPool None False)) = Inr Noop \<and>
   call_cancel Noop world_500 = world_500 \<and>
   fst (subscribe spec_deps [filter_e1] [''wss://c''] (Caller 3) None (Some 7) no_options
          world_500_100) = Inr (UnsubAll [0, 1, 2]) \<and>
   map unsubbed (sub_objs (call_cancel (UnsubAll [0, 1, 2])
      (snd (subscribe spec_deps [filter_e1] [''wss://c''] (Caller 3) None (Some 7) no_options
          world_500_100)))) = [True, True, True]"
proof -
  let ?w' = "snd (subscribe spec_deps [filter_e1] [''wss://c''] (Caller 3) None (Some 7)
      no_options world_500_100)"
  have h1: "truthy (Some (Fin 500))" by simp
  have h2: "\<not> truthy None" by simp
  have h3: "subscribe spec_deps [filter_e1] [''wss://c''] (Caller 3) None (Some 7) no_options
      world_500_100 = (Inr (UnsubAll [0, 1, 2]), ?w')" by code_simp
  have l: "length (sub_objs world_500_100) = 0" "length (sub_objs ?w') = 3" by code_simp+
  have c: "map unsubbed (sub_objs (call_cancel (UnsubAll [0, 1, 2]) ?w')) = [True, True, True]"
    by code_simp
  from subscribe_cancel_functions[OF h1 h2 h3, of "[filter_e1]" "[''wss://a'']" "Caller 0"
      no_options "new_RelayPool None False" None Noop world_500]
  have "fst (subscribe spec_deps [filter_e1] [''wss://a''] (Caller 0) (Some (Fin 500)) None
          no_options (new_RelayPool None False)) = Inr Noop \<and>
        call_cancel Noop world_500 = world_500" by blast
  moreover have "fst (subscribe spec_deps [filter_e1] [''wss://c''] (Caller 3) None (Some 7)
      no_options world_500_100) = Inr (UnsubAll [0, 1, 2])"
    using h3 by (rule arg_cong[where f = fst, THEN trans]) simp
  ultimately show ?thesis using h1 h2 c by blast
qed

text \<open>
  C9.  A call with \<open>maxDelayms = 0\<close> is the call with no \<open>maxDelayms\<close>, whether or not
  \<open>onEose\<close> is supplied.  No error is thrown: the call returns the unsubscribe function of
  a flush.  The request is appended to the pending batch and the batch is flushed before
  the call returns: the pending batch is empty, the timer the pool held is cancelled and
  none is armed for this call, the debounce state is reset, and the wire subscriptions of
  the whole batch, the new request included, are open with the \<open>onEose\<close> given.  The only
  callbacks called are those of the router's cache hits.
\<close>

theorem subscribe_zero_delay:
  assumes "subscribe D filters relays onEvent (Some (Fin 0)) onEose options w = (res, w')"
  shows "subscribe D filters relays onEvent None onEose options w = (res, w') \<and>
         (res, w') =
           (Inr (fst (sendSubscriptions D onEose
              (w\<lparr>trace := trace w @
                     snd (groupFiltersByRelayAndEmitCacheHits D filters relays onEvent options
                            (eventCache w)),
                 filtersToSubscribe := filtersToSubscribe w @
                     [fst (groupFiltersByRelayAndEmitCacheHits D filters relays onEvent options
                            (eventCache w))]\<rparr>))),
            snd (sendSubscriptions D onEose
              (w\<lparr>trace := trace w @
                     snd (groupFiltersByRelayAndEmitCacheHits D filters relays onEvent options
                            (eventCache w)),
                 filtersToSubscribe := filtersToSubscribe w @
                     [fst (groupFiltersByRelayAndEmitCacheHits D filters relays onEvent options
                            (eventCache w))]\<rparr>))) \<and>
         res = Inr (UnsubAll [length (sub_objs w) ..< length (sub_objs w')]) \<and>
         filtersToSubscribe w' = [] \<and> timer w' = None \<and> minMaxDelayms w' = PosInf \<and>
         timers w' = filter (\<lambda>tm. Some (tm_id tm) \<noteq> timer w) (timers w) \<and>
         trace w' = trace w @
           snd (groupFiltersByRelayAndEmitCacheHits D filters relays onEvent options (eventCache w)) \<and>
         take (length (sub_objs w)) (sub_objs w') = sub_objs w \<and>
         map (\<lambda>s. (sub_relay s, sub_filters s)) (drop (length (sub_objs w)) (sub_objs w')) =
           opened_by D (snd (batchFiltersByRelay D (filtersToSubscribe w @
             [fst (groupFiltersByRelayAndEmitCacheHits D filters relays onEvent options
                    (eventCache w))]))) \<and>
         (\<forall>s \<in> set (drop (length (sub_objs w)) (sub_objs w')).
            sub_onEvent s = fst (batchFiltersByRelay D (filtersToSubscribe w @
               [fst (groupFiltersByRelayAndEmitCacheHits D filters relays onEvent options
                      (eventCache w))])) \<and>
            sub_onEose s = onEose \<and> eventsBySub s = Some [] \<and> \<not> unsubbed s \<and>
            map_of (relayByUrl w') (sub_relay s) = Some (sub_instance s))"
proof -
  let ?g = "groupFiltersByRelayAndEmitCacheHits D filters relays onEvent options (eventCache w)"
  let ?w2 = "w\<lparr>trace := trace w @ snd ?g, filtersToSubscribe := filtersToSubscribe w @ [fst ?g]\<rparr>"
  have f0: "\<not> truthy (Some (Fin 0))" and fn: "\<not> truthy None" by simp_all
  have z: "subscribe D filters relays onEvent (Some (Fin 0)) onEose options w =
      (Inr (fst (sendSubscriptions D onEose ?w2)), snd (sendSubscriptions D onEose ?w2))"
    using subscribe_immediate[OF f0] .
  have n: "subscribe D filters relays onEvent None onEose options w =
      (Inr (fst (sendSubscriptions D onEose ?w2)), snd (sendSubscriptions D onEose ?w2))"
    using subscribe_immediate[OF fn] .
  have a: "subscribe D filters relays onEvent None onEose options w = (res, w')"
    using assms z n by simp
  have b: "(res, w') =
      (Inr (fst (sendSubscriptions D onEose ?w2)), snd (sendSubscriptions D onEose ?w2))"
    using assms z by simp
  have r: "res = Inr (fst (sendSubscriptions D onEose ?w2))"
    and w': "w' = snd (sendSubscriptions D onEose ?w2)" using b by simp_all
  have s: "sendSubscriptions D onEose ?w2 = (fst (sendSubscriptions D onEose ?w2), w')"
    using w' by simp
  have bt: "batchFiltersByRelay D (filtersToSubscribe ?w2) =
     (fst (batchFiltersByRelay D (filtersToSubscribe w @ [fst ?g])),
      snd (batchFiltersByRelay D (filtersToSubscribe w @ [fst ?g])))" by simp
  note f = flush_result[OF s bt]
  have so: "sub_objs ?w2 = sub_objs w" by simp
  have c: "res = Inr (UnsubAll [length (sub_objs w) ..< length (sub_objs w')])"
    using r f(5) so by simp
  have d: "filtersToSubscribe w' = []" "timer w' = None" "minMaxDelayms w' = PosInf"
    "trace w' = trace w @ snd ?g"
    unfolding w' by simp_all
  have t: "timers w' = filter (\<lambda>tm. Some (tm_id tm) \<noteq> timer w) (timers w)"
    unfolding w' by (simp add: clearTimeout_timers)
  have e: "take (length (sub_objs w)) (sub_objs w') = sub_objs w" using f(1) so by simp
  have m: "map (\<lambda>s. (sub_relay s, sub_filters s)) (drop (length (sub_objs w)) (sub_objs w')) =
           opened_by D (snd (batchFiltersByRelay D (filtersToSubscribe w @ [fst ?g])))"
    using f(3) so by simp
  have q: "\<forall>s \<in> set (drop (length (sub_objs w)) (sub_objs w')).
            sub_onEvent s = fst (batchFiltersByRelay D (filtersToSubscribe w @ [fst ?g])) \<and>
            sub_onEose s = onEose \<and> eventsBySub s = Some [] \<and> \<not> unsubbed s \<and>
            map_of (relayByUrl w') (sub_relay s) = Some (sub_instance s)"
    using f(4) so by simp
  show ?thesis using a b c d t e m q by blast
qed

text \<open>
  An instance of C9: a call with \<open>maxDelayms = 0\<close> and an \<open>onEose\<close>, made while two
  debounced requests are pending; the three requests are flushed together.
\<close>

theorem subscribe_zero_delay_witness:
  "subscribe spec_deps [filter_e1] [''wss://c''] (Caller 3) (Some (Fin 0)) (Some 7) no_options
      world_500_100 =
     (Inr (UnsubAll [0, 1, 2]),
      snd (subscribe spec_deps [filter_e1] [''wss://c''] (Caller 3) (Some (Fin 0)) (Some 7)
        no_options world_500_100)) \<and>
   subscribe spec_deps [filter_e1] [''wss://c''] (Caller 3) None (Some 7) no_options
      world_500_100 =
     (Inr (UnsubAll [0, 1, 2]),
      snd (subscribe spec_deps [filter_e1] [''wss://c''] (Caller 3) (Some (Fin 0)) (Some 7)
        no_options world_500_100)) \<and>
   length (filtersToSubscribe world_500_100) = 2 \<and>
   timers world_500_100 = [\<lparr>tm_id = 1, tm_delay = Fin 100, tm_armed_at = 0\<rparr>] \<and>
   filtersToSubscribe (snd (subscribe spec_deps [filter_e1] [''wss://c''] (Caller 3)
      (Some (Fin 0)) (Some 7) no_options world_500_100)) = [] \<and>
   timer (snd (subscribe spec_deps [filter_e1] [''wss://c''] (Caller 3)
      (Some (Fin 0)) (Some 7) no_options world_500_100)) = None \<and>
   minMaxDelayms (snd (subscribe spec_deps [filter_e1] [''wss://c''] (Caller 3)
      (Some (Fin 0)) (Some 7) no_options world_500_100)) = PosInf \<and>
   timers (snd (subscribe spec_deps [filter_e1] [''wss://c''] (Caller 3)
      (Some (Fin 0)) (Some 7) no_options world_500_100)) = [] \<and>
   map (\<lambda>s. (sub_relay s, sub_filters s, sub_onEose s))
     (sub_objs (snd (subscribe spec_deps [filter_e1] [''wss://c''] (Caller 3)
        (Some (Fin 0)) (Some 7) no_options world_500_100))) =
     [(''wss://a'', [filter_e1\<lparr>ids := Some [''e1'', ''e2'']\<rparr>], Some 7),
      (''wss://b'', [filter_e2], Some 7), (''wss://c'', [filter_e1], Some 7)]"
proof -
  let ?w' = "snd (subscribe spec_deps [filter_e1] [''wss://c''] (Caller 3) (Some (Fin 0)) (Some 7)
        no_options world_500_100)"
  have h: "subscribe spec_deps [filter_e1] [''wss://c''] (Caller 3) (Some (Fin 0)) (Some 7)
      no_options world_500_100 = (Inr (UnsubAll [0, 1, 2]), ?w')" by code_simp
  have p: "length (filtersToSubscribe world_500_100) = 2" by code_simp
  have tb: "timers world_500_100 = [\<lparr>tm_id = 1, tm_delay = Fin 100, tm_armed_at = 0\<rparr>]"
    by code_simp
  have ta: "timers ?w' = []" by code_simp
  have o: "map (\<lambda>s. (sub_relay s, sub_filters s, sub_onEose s)) (sub_objs ?w') =
     [(''wss://a'', [filter_e1\<lparr>ids := Some [''e1'', ''e2'']\<rparr>], Some 7),
      (''wss://b'', [filter_e2], Some 7), (''wss://c'', [filter_e1], Some 7)]" by code_simp
  from subscribe_zero_delay[OF h]
  have "subscribe spec_deps [filter_e1] [''wss://c''] (Caller 3) None (Some 7) no_options
      world_500_100 = (Inr (UnsubAll [0, 1, 2]), ?w') \<and>
    filtersToSubscribe ?w' = [] \<and> timer ?w' = None \<and> minMaxDelayms ?w' = PosInf"
    by blast
  with h p tb ta o show ?thesis by blast
qed

section \<open>The invariant of the pool\<close>

lemma fold_invariant:
  assumes "\<And>x w. P w \<Longrightarrow> P (f x w)" and "P w"
  shows "P (fold f xs w)"
  using assms(2) by (induction xs arbitrary: w) (simp_all add: assms(1))

lemma registry_ok_cong:
  "relayByUrl w' = relayByUrl w \<Longrightarrow> length (relay_objs w') = length (relay_objs w) \<Longrightarrow>
   registry_ok w \<Longrightarrow> registry_ok w'"
  by (simp add: registry_ok_def)

lemma timers_ok_cong:
  "timers w' = timers w \<Longrightarrow> timer w' = timer w \<Longrightarrow> timers_ok w \<Longrightarrow> timers_ok w'"
  by (simp add: timers_ok_def)

lemma pool_ok_cong:
  "relayByUrl w' = relayByUrl w \<Longrightarrow> length (relay_objs w') = length (relay_objs w) \<Longrightarrow>
   timers w' = timers w \<Longrightarrow> timer w' = timer w \<Longrightarrow> pool_ok w \<Longrightarrow> pool_ok w'"
  unfolding pool_ok_def using registry_ok_cong timers_ok_cong by blast

lemma addOrGetRelay_pool_ok: "pool_ok w \<Longrightarrow> pool_ok (snd (addOrGetRelay r w))"
  unfolding pool_ok_def using addOrGetRelay_ok[of w r] by (simp add: timers_ok_def)

lemma sendSubscriptions_pool_ok: "pool_ok w \<Longrightarrow> pool_ok (snd (sendSubscriptions D oe w))"
  unfolding pool_ok_def using sendSubscriptions_ok sendSubscriptions_timers_ok by blast

lemma resetTimer_pool_ok: "pool_ok w \<Longrightarrow> pool_ok (resetTimer d w)"
  unfolding pool_ok_def using resetTimer_ok[of w d] by (simp add: registry_ok_def)

lemma subscribe_pool_ok:
  assumes "pool_ok w"
  shows "pool_ok (snd (subscribe D fs rs cb d oe opts w))"
proof -
  let ?g = "groupFiltersByRelayAndEmitCacheHits D fs rs cb opts (eventCache w)"
  let ?w2 = "w\<lparr>trace := trace w @ snd ?g, filtersToSubscribe := filtersToSubscribe w @ [fst ?g]\<rparr>"
  have ok2: "pool_ok ?w2" using assms by (rule_tac pool_ok_cong[of ?w2 w]) simp_all
  show ?thesis
  proof (cases "truthy d \<and> oe \<noteq> None")
    case True
    then show ?thesis using assms by (simp add: subscribe_def)
  next
    case False
    show ?thesis
    proof (cases "truthy d")
      case True
      then obtain n where "d = Some n" by (cases d) auto
      then show ?thesis
        using True False resetTimer_pool_ok[OF ok2, of n]
        by (simp add: subscribe_def Let_def split_beta)
    next
      case no: False
      show ?thesis
        using no sendSubscriptions_pool_ok[OF ok2, of D oe]
        by (simp add: subscribe_def Let_def split_beta)
    qed
  qed
qed

lemma relay_publish_pool_ok: "pool_ok w \<Longrightarrow> pool_ok (relay_publish i e w)"
  by (rule pool_ok_cong[of _ w]) (simp_all add: relay_publish_def)

lemma publish_pool_ok: "pool_ok w \<Longrightarrow> pool_ok (publish e rs w)"
  unfolding publish_def
  by (rule fold_invariant)
     (simp_all add: publish_one_def split_beta Let_def relay_publish_pool_ok addOrGetRelay_pool_ok)

lemma relay_on_error_frame:
  "relayByUrl (relay_on_error cb x w) = relayByUrl w"
  "length (relay_objs (relay_on_error cb x w)) = length (relay_objs w)"
  "timers (relay_on_error cb x w) = timers w"
  "timer (relay_on_error cb x w) = timer w"
  by (simp_all add: relay_on_error_def split_beta)

lemma relay_on_disconnect_frame:
  "relayByUrl (relay_on_disconnect cb x w) = relayByUrl w"
  "length (relay_objs (relay_on_disconnect cb x w)) = length (relay_objs w)"
  "timers (relay_on_disconnect cb x w) = timers w"
  "timer (relay_on_disconnect cb x w) = timer w"
  by (simp_all add: relay_on_disconnect_def split_beta)

lemma onerror_pool_ok: "pool_ok w \<Longrightarrow> pool_ok (onerror cb w)"
  unfolding onerror_def
  by (rule fold_invariant) (auto intro: pool_ok_cong simp: relay_on_error_frame)

lemma ondisconnect_pool_ok: "pool_ok w \<Longrightarrow> pool_ok (ondisconnect cb w)"
  unfolding ondisconnect_def
  by (rule fold_invariant) (auto intro: pool_ok_cong simp: relay_on_disconnect_frame)

lemma relay_close_timers:
  "timers (fold relay_close is w) = timers w \<and> timer (fold relay_close is w) = timer w"
  by (induction "is" arbitrary: w) (simp_all add: relay_close_def)

lemma close_pool_ok: "pool_ok w \<Longrightarrow> pool_ok (close w)"
  using relay_close_timers[of "map snd (relayByUrl w)" w]
  by (simp add: pool_ok_def close_def registry_ok_def timers_ok_def)

lemma call_cancel_pool_ok: "pool_ok w \<Longrightarrow> pool_ok (call_cancel c w)"
proof (cases c)
  case Noop
  then show "pool_ok w \<Longrightarrow> pool_ok (call_cancel c w)" by simp
next
  case (UnsubAll subs)
  assume ok: "pool_ok w"
  have "fold sub_unsub subs w = w\<lparr>sub_objs := sub_objs (fold sub_unsub subs w)\<rparr>"
    by (rule cancel_all_frame)
  moreover have "pool_ok (w\<lparr>sub_objs := sub_objs (fold sub_unsub subs w)\<rparr>)"
    using ok by (rule_tac pool_ok_cong[of _ w]) simp_all
  ultimately have "pool_ok (fold sub_unsub subs w)" by simp
  then show "pool_ok (call_cancel c w)" using UnsubAll by simp
qed

lemma connect_pool_ok:
  "pool_ok w \<Longrightarrow> pool_ok (connect_fulfilled i w)"
  "pool_ok w \<Longrightarrow> pool_ok (connect_rejected i w)"
  by (rule pool_ok_cong[of _ w]; simp add: connect_fulfilled_def connect_rejected_def)+

lemma emit_pool_ok:
  "pool_ok w \<Longrightarrow> pool_ok (relay_emit_notice i m w)"
  "pool_ok w \<Longrightarrow> pool_ok (relay_emit_error i m w)"
  "pool_ok w \<Longrightarrow> pool_ok (relay_emit_disconnect i m w)"
  "pool_ok w \<Longrightarrow> pool_ok (sub_emit_event j e w)"
  "pool_ok w \<Longrightarrow> pool_ok (sub_emit_eose j w)"
  by (rule pool_ok_cong[of _ w];
      simp add: relay_emit_notice_def relay_emit_error_def relay_emit_disconnect_def
        sub_emit_event_def sub_emit_eose_def Let_def split: option.splits)+

lemma timer_fires_pool_ok:
  assumes "pool_ok w"
  shows "pool_ok (timer_fires D t w)"
proof (cases "t \<in> tm_id ` set (timers w)")
  case False
  then show ?thesis using assms by (simp add: timer_fires_def)
next
  case True
  let ?w1 = "w\<lparr>timers := filter (\<lambda>tm. tm_id tm \<noteq> t) (timers w)\<rparr>"
  have "length (filter (\<lambda>tm. tm_id tm \<noteq> t) (timers w)) \<le> length (timers w)"
    by (rule length_filter_le)
  moreover have "length (timers w) \<le> 1" using assms by (simp add: pool_ok_def timers_ok_def)
  ultimately have "length (filter (\<lambda>tm. tm_id tm \<noteq> t) (timers w)) \<le> 1" by linarith
  then have "pool_ok ?w1"
    using assms by (simp add: pool_ok_def registry_ok_def timers_ok_def list_all_iff)
  then show ?thesis using True sendSubscriptions_pool_ok by (simp add: timer_fires_def)
qed

lemma advance_pool_ok:
  assumes "pool_ok w"
  shows "pool_ok (advance D t w)"
proof -
  let ?f = "\<lambda>tm w. timer_fires D (tm_id tm) (w\<lparr>clock := max (clock w) (deadline tm)\<rparr>)"
  have step: "\<And>tm w. pool_ok w \<Longrightarrow> pool_ok (?f tm w)"
  proof -
    fix tm and w :: "'a world"
    assume "pool_ok w"
    then have "pool_ok (w\<lparr>clock := max (clock w) (deadline tm)\<rparr>)"
      by (rule_tac pool_ok_cong[of _ w]) simp_all
    then show "pool_ok (?f tm w)" by (rule timer_fires_pool_ok)
  qed
  have "pool_ok (fold ?f (sort_key deadline (filter (\<lambda>tm. deadline tm \<le> t) (timers w))) w)"
    using step assms by (rule fold_invariant)
  then show ?thesis
    unfolding advance_def Let_def by (rule_tac pool_ok_cong[of _ "fold ?f _ w"]) simp_all
qed

lemma step_pool_ok: "pool_ok w \<Longrightarrow> pool_ok (step D a w)"
  by (cases a)
     (simp_all add: subscribe_pool_ok sendSubscriptions_pool_ok addOrGetRelay_pool_ok
        publish_pool_ok onerror_pool_ok ondisconnect_pool_ok close_pool_ok call_cancel_pool_ok
        connect_pool_ok emit_pool_ok timer_fires_pool_ok advance_pool_ok,
      simp add: onnotice_def pool_ok_def registry_ok_def timers_ok_def)

lemma run_pool_ok: "pool_ok w \<Longrightarrow> pool_ok (run D acts w)"
  unfolding run_def by (rule fold_invariant) (simp_all add: step_pool_ok)

lemma addRelays_pool_ok: "pool_ok w \<Longrightarrow> pool_ok (addRelays rs w)"
  unfolding addRelays_def by (rule fold_invariant) (simp_all add: addOrGetRelay_pool_ok)

lemma new_RelayPool_ok: "pool_ok (new_RelayPool init no_cache)"
proof -
  have "pool_ok (empty_world no_cache :: 'a world)"
    by (simp add: pool_ok_def registry_ok_def timers_ok_def empty_world_def)
  then show ?thesis
    by (cases init) (simp_all add: new_RelayPool_def addRelays_pool_ok)
qed

section \<open>Claims about the debounce timer\<close>

lemma advance_idle:
  assumes "\<forall>tm \<in> set (timers w). t < deadline tm"
  shows "advance D t w = w\<lparr>clock := max (clock w) t\<rparr>"
proof -
  have "filter (\<lambda>tm. deadline tm \<le> t) (timers w) = []"
    using assms by (auto simp: filter_empty_conv)
  then show ?thesis by (simp add: advance_def)
qed

lemma advance_fires_one:
  assumes "timers w = [tm]" and "deadline tm \<le> t"
  shows "advance D t w =
           (snd (sendSubscriptions D None (w\<lparr>clock := max (clock w) (deadline tm), timers := []\<rparr>)))
             \<lparr>clock := max (max (clock w) (deadline tm)) t\<rparr>"
  using assms by (simp add: advance_def timer_fires_def)

lemma subscribe_debounced_world:
  assumes "truthy (Some d)" and "timers_ok w"
  shows "minMaxDelayms (snd (subscribe D fs rs cb (Some d) None opts w)) = js_min (minMaxDelayms w) d"
    and "timers (snd (subscribe D fs rs cb (Some d) None opts w)) =
           (if js_min (minMaxDelayms w) d = PosInf then []
            else [\<lparr>tm_id = next_timer w, tm_delay = js_min (minMaxDelayms w) d,
                   tm_armed_at = clock w\<rparr>])"
    and "timer (snd (subscribe D fs rs cb (Some d) None opts w)) =
           (if js_min (minMaxDelayms w) d = PosInf then None else Some (next_timer w))"
    and "filtersToSubscribe (snd (subscribe D fs rs cb (Some d) None opts w)) =
           filtersToSubscribe w @
             [fst (groupFiltersByRelayAndEmitCacheHits D fs rs cb opts (eventCache w))]"
    and "sub_objs (snd (subscribe D fs rs cb (Some d) None opts w)) = sub_objs w"
    and "eventCache (snd (subscribe D fs rs cb (Some d) None opts w)) = eventCache w"
    and "clock (snd (subscribe D fs rs cb (Some d) None opts w)) = clock w"
proof -
  let ?g = "groupFiltersByRelayAndEmitCacheHits D fs rs cb opts (eventCache w)"
  let ?w2 = "w\<lparr>trace := trace w @ snd ?g, filtersToSubscribe := filtersToSubscribe w @ [fst ?g]\<rparr>"
  have ok2: "timers_ok ?w2" using assms(2) by (simp add: timers_ok_def)
  have s: "snd (subscribe D fs rs cb (Some d) None opts w) = resetTimer d ?w2"
    using assms(1) by (simp add: subscribe_debounced)
  show "minMaxDelayms (snd (subscribe D fs rs cb (Some d) None opts w)) = js_min (minMaxDelayms w) d"
    unfolding s using resetTimer_timers(3)[OF ok2, of d] by simp
  show "timers (snd (subscribe D fs rs cb (Some d) None opts w)) =
           (if js_min (minMaxDelayms w) d = PosInf then []
            else [\<lparr>tm_id = next_timer w, tm_delay = js_min (minMaxDelayms w) d,
                   tm_armed_at = clock w\<rparr>])"
    unfolding s using resetTimer_timers(1)[OF ok2, of d] by simp
  show "timer (snd (subscribe D fs rs cb (Some d) None opts w)) =
           (if js_min (minMaxDelayms w) d = PosInf then None else Some (next_timer w))"
    unfolding s using resetTimer_timers(2)[OF ok2, of d] by simp
  show "filtersToSubscribe (snd (subscribe D fs rs cb (Some d) None opts w)) =
           filtersToSubscribe w @ [fst ?g]"
    unfolding s by simp
  show "sub_objs (snd (subscribe D fs rs cb (Some d) None opts w)) = sub_objs w"
    unfolding s by simp
  show "eventCache (snd (subscribe D fs rs cb (Some d) None opts w)) = eventCache w"
    unfolding s by simp
  show "clock (snd (subscribe D fs rs cb (Some d) None opts w)) = clock w"
    unfolding s by simp
qed

lemma resetTimer_next: "next_timer (resetTimer d w) = 
   (if js_min (minMaxDelayms w) d = PosInf then next_timer w else Suc (next_timer w))"
  using js_gt_min[of "minMaxDelayms w" d]
  by (auto simp add: resetTimer_def Let_def setTimeout_def split_beta split: if_splits)

lemma subscribe_debounced_next:
  assumes "truthy (Some d)"
  shows "next_timer (snd (subscribe D fs rs cb (Some d) None opts w)) =
           (if js_min (minMaxDelayms w) d = PosInf then next_timer w else Suc (next_timer w))"
  using assms by (simp add: subscribe_debounced resetTimer_next)

lemma timeout_ms_500_100: "timeout_ms (Fin 500) = 500" "timeout_ms (Fin 100) = 100"
  by (simp_all add: timeout_ms_def)

lemma debounce_500_100:
  assumes ok: "pool_ok w0"
      and idle: "minMaxDelayms w0 = PosInf" "filtersToSubscribe w0 = []"
      and t1: "t1 < clock w0 + 500"
      and w1: "w1 = advance D t1 (snd (subscribe D fs1 rs1 cb1 (Some (Fin 500)) None o1 w0))"
      and w2: "w2 = snd (subscribe D fs2 rs2 cb2 (Some (Fin 100)) None o2 w1)"
  shows "timers w2 = [\<lparr>tm_id = Suc (next_timer w0), tm_delay = Fin 100,
                       tm_armed_at = max (clock w0) t1\<rparr>]"
    and "filtersToSubscribe w2 =
           [fst (groupFiltersByRelayAndEmitCacheHits D fs1 rs1 cb1 o1 (eventCache w0)),
            fst (groupFiltersByRelayAndEmitCacheHits D fs2 rs2 cb2 o2 (eventCache w0))]"
    and "sub_objs w2 = sub_objs w0"
    and "clock w2 = max (clock w0) t1"
proof -
  let ?wa = "snd (subscribe D fs1 rs1 cb1 (Some (Fin 500)) None o1 w0)"
  have tr: "truthy (Some (Fin 500))" "truthy (Some (Fin 100))" by simp_all
  have tok: "timers_ok w0" using ok by (simp add: pool_ok_def)
  note a = subscribe_debounced_world[OF tr(1) tok, of D fs1 rs1 cb1 o1]
  have ta: "timers ?wa = [\<lparr>tm_id = next_timer w0, tm_delay = Fin 500, tm_armed_at = clock w0\<rparr>]"
    using a(2) idle(1) by simp
  have "\<forall>tm \<in> set (timers ?wa). t1 < deadline tm"
    using ta t1 by (simp add: deadline_def timeout_ms_500_100)
  then have w1': "w1 = ?wa\<lparr>clock := max (clock ?wa) t1\<rparr>"
    unfolding w1 by (rule advance_idle)
  have oka: "timers_ok ?wa" using subscribe_pool_ok[OF ok] by (simp add: pool_ok_def)
  have ok1: "timers_ok w1" using oka unfolding w1' by (simp add: timers_ok_def)
  have f1: "minMaxDelayms w1 = Fin 500" "next_timer w1 = Suc (next_timer w0)"
    "clock w1 = max (clock w0) t1" "eventCache w1 = eventCache w0" "sub_objs w1 = sub_objs w0"
    "filtersToSubscribe w1 =
       [fst (groupFiltersByRelayAndEmitCacheHits D fs1 rs1 cb1 o1 (eventCache w0))]"
    unfolding w1' using a idle subscribe_debounced_next[OF tr(1), of D fs1 rs1 cb1 o1 w0]
    by simp_all
  note b = subscribe_debounced_world[OF tr(2) ok1, of D fs2 rs2 cb2 o2]
  show "timers w2 = [\<lparr>tm_id = Suc (next_timer w0), tm_delay = Fin 100,
                       tm_armed_at = max (clock w0) t1\<rparr>]"
    unfolding w2 using b(2) f1 by simp
  show "filtersToSubscribe w2 =
           [fst (groupFiltersByRelayAndEmitCacheHits D fs1 rs1 cb1 o1 (eventCache w0)),
            fst (groupFiltersByRelayAndEmitCacheHits D fs2 rs2 cb2 o2 (eventCache w0))]"
    unfolding w2 using b(4) f1 by simp
  show "sub_objs w2 = sub_objs w0" unfolding w2 using b(5) f1 by simp
  show "clock w2 = max (clock w0) t1" unfolding w2 using b(7) f1 by simp
qed

lemma single_flush:
  assumes tm: "timers w2 = [tm]" and due: "deadline tm \<le> t" and w3: "w3 = advance D t w2"
  shows "timers w3 = []"
    and "filtersToSubscribe w3 = []"
    and "take (length (sub_objs w2)) (sub_objs w3) = sub_objs w2"
    and "map (\<lambda>s. (sub_relay s, sub_filters s)) (drop (length (sub_objs w2)) (sub_objs w3)) =
           opened_by D (snd (batchFiltersByRelay D (filtersToSubscribe w2)))"
    and "\<forall>s \<in> set (drop (length (sub_objs w2)) (sub_objs w3)).
           sub_onEvent s = fst (batchFiltersByRelay D (filtersToSubscribe w2))"
    and "advance D t' w3 = w3\<lparr>clock := max (clock w3) t'\<rparr>"
proof -
  let ?v = "w2\<lparr>clock := max (clock w2) (deadline tm), timers := []\<rparr>"
  let ?f = "snd (sendSubscriptions D None ?v)"
  have w3': "w3 = ?f\<lparr>clock := max (max (clock w2) (deadline tm)) t\<rparr>"
    unfolding w3 using advance_fires_one[OF tm due] .
  have s: "sendSubscriptions D None ?v = (fst (sendSubscriptions D None ?v), ?f)" by simp
  have bt: "batchFiltersByRelay D (filtersToSubscribe ?v) =
     (fst (batchFiltersByRelay D (filtersToSubscribe w2)),
      snd (batchFiltersByRelay D (filtersToSubscribe w2)))" by simp
  note f = flush_result[OF s bt]
  have sv: "sub_objs ?v = sub_objs w2" by simp
  show t0: "timers w3 = []" unfolding w3' by (simp add: clearTimeout_timers)
  show "filtersToSubscribe w3 = []" unfolding w3' by simp
  show "take (length (sub_objs w2)) (sub_objs w3) = sub_objs w2"
    unfolding w3' using f(1) sv by simp
  show "map (\<lambda>s. (sub_relay s, sub_filters s)) (drop (length (sub_objs w2)) (sub_objs w3)) =
           opened_by D (snd (batchFiltersByRelay D (filtersToSubscribe w2)))"
    unfolding w3' using f(3) sv by simp
  show "\<forall>s \<in> set (drop (length (sub_objs w2)) (sub_objs w3)).
           sub_onEvent s = fst (batchFiltersByRelay D (filtersToSubscribe w2))"
    unfolding w3' using f(4) sv by simp
  show "advance D t' w3 = w3\<lparr>clock := max (clock w3) t'\<rparr>"
    using t0 by (intro advance_idle) simp
qed

text \<open>
  C2, as amended.  In every world the pool reaches from its construction, by any history
  of calls and of events of the world, at most one timer is armed.  A \<open>subscribe\<close> with a
  truthy \<open>maxDelayms\<close> and no \<open>onEose\<close> makes the stored minimum the \<open>min\<close> of the
  previous minimum and \<open>maxDelayms\<close>, cancels the timer and, unless that minimum is
  \<open>Infinity\<close>, arms one timer from now with that minimum.  So when a pool with nothing
  pending receives a request with 500 ms and, before that timer is due, a request with
  100 ms, one timer of 100 ms is armed from the time of the second call and both requests
  are pending; nothing is flushed before that timer is due; when it is due one flush
  passes both requests to the router and opens the wire subscriptions of both; and no
  timer is armed after it, so no second flush follows.
\<close>

theorem debounce_single_timer:
  assumes "truthy (Some d)" and "pool_ok w"
      and "pool_ok w0" and "minMaxDelayms w0 = PosInf" and "filtersToSubscribe w0 = []"
      and "t1 < clock w0 + 500"
      and "w1 = advance D t1 (snd (subscribe D fs1 rs1 cb1 (Some (Fin 500)) None o1 w0))"
      and "w2 = snd (subscribe D fs2 rs2 cb2 (Some (Fin 100)) None o2 w1)"
      and "batch = [fst (groupFiltersByRelayAndEmitCacheHits D fs1 rs1 cb1 o1 (eventCache w0)),
                    fst (groupFiltersByRelayAndEmitCacheHits D fs2 rs2 cb2 o2 (eventCache w0))]"
      and "max (clock w0) t1 + 100 \<le> t"
      and "w3 = advance D t w2"
  shows "pool_ok (run D acts (new_RelayPool init no_cache)) \<and>
         length (timers (run D acts (new_RelayPool init no_cache))) \<le> 1 \<and>
         minMaxDelayms (snd (subscribe D fs rs cb (Some d) None opts w)) =
           js_min (minMaxDelayms w) d \<and>
         timers (snd (subscribe D fs rs cb (Some d) None opts w)) =
           (if js_min (minMaxDelayms w) d = PosInf then []
            else [\<lparr>tm_id = next_timer w, tm_delay = js_min (minMaxDelayms w) d,
                   tm_armed_at = clock w\<rparr>]) \<and>
         timers w2 = [\<lparr>tm_id = Suc (next_timer w0), tm_delay = Fin 100,
                       tm_armed_at = max (clock w0) t1\<rparr>] \<and>
         filtersToSubscribe w2 = batch \<and>
         (\<forall>t'. t' < max (clock w0) t1 + 100 \<longrightarrow> advance D t' w2 = w2\<lparr>clock := max (clock w2) t'\<rparr>) \<and>
         timers w3 = [] \<and> filtersToSubscribe w3 = [] \<and>
         take (length (sub_objs w0)) (sub_objs w3) = sub_objs w0 \<and>
         map (\<lambda>s. (sub_relay s, sub_filters s)) (drop (length (sub_objs w0)) (sub_objs w3)) =
           opened_by D (snd (batchFiltersByRelay D batch)) \<and>
         (\<forall>s \<in> set (drop (length (sub_objs w0)) (sub_objs w3)).
            sub_onEvent s = fst (batchFiltersByRelay D batch)) \<and>
         (\<forall>t'. advance D t' w3 = w3\<lparr>clock := max (clock w3) t'\<rparr>)"
proof -
  have r: "pool_ok (run D acts (new_RelayPool init no_cache))"
    using run_pool_ok[OF new_RelayPool_ok] .
  then have r1: "length (timers (run D acts (new_RelayPool init no_cache))) \<le> 1"
    by (simp add: pool_ok_def timers_ok_def)
  have tok: "timers_ok w" using assms(2) by (simp add: pool_ok_def)
  note a = subscribe_debounced_world[OF assms(1) tok, of D fs rs cb opts]
  note b = debounce_500_100[OF assms(3-8)]
  let ?tm = "\<lparr>tm_id = Suc (next_timer w0), tm_delay = Fin 100, tm_armed_at = max (clock w0) t1\<rparr>"
  have dl: "deadline ?tm = max (clock w0) t1 + 100"
    by (simp add: deadline_def timeout_ms_500_100)
  have idle: "\<forall>t'. t' < max (clock w0) t1 + 100 \<longrightarrow>
      advance D t' w2 = w2\<lparr>clock := max (clock w2) t'\<rparr>"
  proof (intro allI impI)
    fix t'
    assume "t' < max (clock w0) t1 + 100"
    then have "\<forall>tm \<in> set (timers w2). t' < deadline tm" using b(1) dl by simp
    then show "advance D t' w2 = w2\<lparr>clock := max (clock w2) t'\<rparr>" by (rule advance_idle)
  qed
  have due: "deadline ?tm \<le> t" using assms(10) dl by simp
  note c = single_flush[OF b(1) due assms(11)]
  have bat: "filtersToSubscribe w2 = batch" using b(2) assms(9) by simp
  have c3: "take (length (sub_objs w0)) (sub_objs w3) = sub_objs w0" using c(3) b(3) by simp
  have c4: "map (\<lambda>s. (sub_relay s, sub_filters s)) (drop (length (sub_objs w0)) (sub_objs w3)) =
           opened_by D (snd (batchFiltersByRelay D batch))" using c(4) b(3) bat by simp
  have c5: "\<forall>s \<in> set (drop (length (sub_objs w0)) (sub_objs w3)).
            sub_onEvent s = fst (batchFiltersByRelay D batch)" using c(5) b(3) bat by simp
  have c6: "\<forall>t'. advance D t' w3 = w3\<lparr>clock := max (clock w3) t'\<rparr>" using c(6) by blast
  show ?thesis
    using r r1 a(1) a(2) b(1) bat idle c(1) c(2) c3 c4 c5 c6 by blast
qed

text \<open>
  An instance of C2 as amended: requests with 500 ms at time 0 and 100 ms at time 50,
  flushed together at time 150.
\<close>

theorem debounce_single_timer_witness:
  "truthy (Some (Fin 100)) \<and> pool_ok world_500 \<and>
   pool_ok (new_RelayPool None False :: on_event world) \<and>
   minMaxDelayms (new_RelayPool None False :: on_event world) = PosInf \<and>
   filtersToSubscribe (new_RelayPool None False :: on_event world) = [] \<and>
   50 < clock (new_RelayPool None False :: on_event world) + 500 \<and>
   length (timers (run spec_deps
      [Subscribe [filter_e1] [''wss://a''] (Caller 0) (Some (Fin 500)) None no_options,
       Advance 50,
       Subscribe [filter_e2] [''wss://a'', ''wss://b''] (Caller 1) (Some (Fin 100)) None no_options]
      (new_RelayPool None False))) \<le> 1 \<and>
   minMaxDelayms world_500 = Fin 500 \<and>
   minMaxDelayms world_500_100 = Fin 100 \<and>
   timers world_500_100 = [\<lparr>tm_id = 1, tm_delay = Fin 100, tm_armed_at = 0\<rparr>] \<and>
   timers (snd (subscribe spec_deps [filter_e2] [''wss://a'', ''wss://b''] (Caller 1)
      (Some (Fin 100)) None no_options (advance spec_deps 50 world_500))) =
     [\<lparr>tm_id = 1, tm_delay = Fin 100, tm_armed_at = 50\<rparr>] \<and>
   sub_objs (advance spec_deps 149 (snd (subscribe spec_deps [filter_e2] [''wss://a'', ''wss://b'']
      (Caller 1) (Some (Fin 100)) None no_options (advance spec_deps 50 world_500)))) = [] \<and>
   timers (advance spec_deps 150 (snd (subscribe spec_deps [filter_e2] [''wss://a'', ''wss://b'']
      (Caller 1) (Some (Fin 100)) None no_options (advance spec_deps 50 world_500)))) = [] \<and>
   filtersToSubscribe (advance spec_deps 150 (snd (subscribe spec_deps [filter_e2]
      [''wss://a'', ''wss://b''] (Caller 1) (Some (Fin 100)) None no_options
      (advance spec_deps 50 world_500)))) = [] \<and>
   map (\<lambda>s. (sub_relay s, sub_filters s))
     (sub_objs (advance spec_deps 150 (snd (subscribe spec_deps [filter_e2]
        [''wss://a'', ''wss://b''] (Caller 1) (Some (Fin 100)) None no_options
        (advance spec_deps 50 world_500))))) =
     [(''wss://a'', [filter_e1\<lparr>ids := Some [''e1'', ''e2'']\<rparr>]), (''wss://b'', [filter_e2])]"
proof -
  let ?w0 = "new_RelayPool None False :: on_event world"
  let ?w1 = "advance spec_deps 50 world_500"
  let ?w2 = "snd (subscribe spec_deps [filter_e2] [''wss://a'', ''wss://b''] (Caller 1)
      (Some (Fin 100)) None no_options ?w1)"
  let ?w3 = "advance spec_deps 150 ?w2"
  let ?acts = "[Subscribe [filter_e1] [''wss://a''] (Caller 0) (Some (Fin 500)) None no_options,
       Advance 50,
       Subscribe [filter_e2] [''wss://a'', ''wss://b''] (Caller 1) (Some (Fin 100)) None no_options]"
  have h1: "truthy (Some (Fin 100))" by simp
  have h2: "pool_ok world_500" by code_simp
  have h3: "pool_ok ?w0" by code_simp
  have h4: "minMaxDelayms ?w0 = PosInf" by code_simp
  have h5: "filtersToSubscribe ?w0 = []" by code_simp
  have h6: "50 < clock ?w0 + 500" by code_simp
  have h7: "?w1 = advance spec_deps 50 (snd (subscribe spec_deps [filter_e1] [''wss://a'']
      (Caller 0) (Some (Fin 500)) None no_options ?w0))" by (simp add: world_500_def)
  have h8: "?w2 = snd (subscribe spec_deps [filter_e2] [''wss://a'', ''wss://b''] (Caller 1)
      (Some (Fin 100)) None no_options ?w1)" by simp
  have h10: "max (clock ?w0) 50 + 100 \<le> (150::nat)" by code_simp
  have c0: "clock ?w0 = 0" "next_timer ?w0 = 0" "sub_objs ?w0 = []" by code_simp+
  have m: "minMaxDelayms world_500 = Fin 500" by code_simp
  have w100: "world_500_100 = snd (subscribe spec_deps [filter_e2] [''wss://a'', ''wss://b'']
      (Caller 1) (Some (Fin 100)) None no_options world_500)" by (simp add: world_500_100_def)
  have nt: "next_timer world_500 = 1" "clock world_500 = 0" by code_simp+
  have before: "sub_objs (advance spec_deps 149 ?w2) = []" by code_simp
  have opened: "map (\<lambda>s. (sub_relay s, sub_filters s)) (sub_objs ?w3) =
     [(''wss://a'', [filter_e1\<lparr>ids := Some [''e1'', ''e2'']\<rparr>]), (''wss://b'', [filter_e2])]"
    by code_simp
  note t = debounce_single_timer[OF h1 h2 h3 h4 h5 h6 h7 h8 refl h10 refl,
      of ?acts None False "[filter_e2]" "[''wss://a'', ''wss://b'']" "Caller 1" no_options]
  from t have a: "length (timers (run spec_deps ?acts ?w0)) \<le> 1" by blast
  from t m nt w100 have b: "minMaxDelayms world_500_100 = Fin 100"
    "timers world_500_100 = [\<lparr>tm_id = 1, tm_delay = Fin 100, tm_armed_at = 0\<rparr>]"
    by simp_all
  from t c0 have c: "timers ?w2 = [\<lparr>tm_id = 1, tm_delay = Fin 100, tm_armed_at = 50\<rparr>]"
    "timers ?w3 = []" "filtersToSubscribe ?w3 = []"
    by simp_all
  show ?thesis using h1 h2 h3 h4 h5 h6 a m b c before opened by blast
qed

text \<open>
  C2 as stated fails for two delays.  With a request of 500 ms pending, a \<open>subscribe\<close>
  that supplies \<open>maxDelayms = 0\<close> leaves the stored minimum at \<open>Infinity\<close>, not at
  \<open>min(500, 0)\<close>, and no timer armed: it has flushed.  On a new pool, a \<open>subscribe\<close>
  that supplies \<open>maxDelayms = Infinity\<close> appends its request and arms no timer.
\<close>

theorem debounce_falsy_or_infinite_delay_counterexample:
  "minMaxDelayms world_500 = Fin 500 \<and> js_min (Fin 500) (Fin 0) = Fin 0 \<and>
   timers world_500 = [\<lparr>tm_id = 0, tm_delay = Fin 500, tm_armed_at = 0\<rparr>] \<and>
   minMaxDelayms (snd (subscribe spec_deps [filter_e2] [''wss://a''] (Caller 1) (Some (Fin 0)) None
      no_options world_500)) = PosInf \<and>
   timers (snd (subscribe spec_deps [filter_e2] [''wss://a''] (Caller 1) (Some (Fin 0)) None
      no_options world_500)) = [] \<and>
   length (filtersToSubscribe (snd (subscribe spec_deps [filter_e1] [''wss://a''] (Caller 0)
      (Some PosInf) None no_options (new_RelayPool None False)))) = 1 \<and>
   timers (snd (subscribe spec_deps [filter_e1] [''wss://a''] (Caller 0)
      (Some PosInf) None no_options (new_RelayPool None False))) = []"
  by code_simp

section \<open>Claims about the registry\<close>

lemma addOrGetRelay_hit: "map_of (relayByUrl w) r = Some i \<Longrightarrow> addOrGetRelay r w = (i, w)"
  by (simp add: addOrGetRelay_def)

lemma addOrGetRelay_miss:
  "map_of (relayByUrl w) r = None \<Longrightarrow>
   addOrGetRelay r w =
     (length (relay_objs w),
      w\<lparr>relay_objs := relay_objs w @ [relayInit r],
        relayByUrl := relayByUrl w @ [(r, length (relay_objs w))]\<rparr>)"
  by (simp add: addOrGetRelay_def Let_def)

lemma length_unique: "length (unique xs) = card (set xs)"
  using distinct_card[OF distinct_unique, of xs] by (simp add: set_unique)

lemma unique_append:
  "fold (\<lambda>x acc. if x \<in> set acc then acc else acc @ [x]) ys (unique xs) = unique (xs @ ys)"
  by (simp add: unique_def)

lemma fold_distinct:
  "distinct (acc @ ys) \<Longrightarrow>
   fold (\<lambda>x acc. if x \<in> set acc then acc else acc @ [x]) ys acc = acc @ ys"
proof (induction ys arbitrary: acc)
  case Nil
  show ?case by simp
next
  case (Cons y ys)
  have "y \<notin> set acc" using Cons.prems by simp
  moreover have "distinct ((acc @ [y]) @ ys)" using Cons.prems by simp
  ultimately show ?case using Cons.IH[of "acc @ [y]"] by simp
qed

lemma new_RelayPool_keys:
  "map fst (relayByUrl (new_RelayPool init no_cache)) =
     unique (case init of None \<Rightarrow> [] | Some l \<Rightarrow> l)"
proof (cases init)
  case None
  then show ?thesis by (simp add: new_RelayPool_def empty_world_def unique_def)
next
  case (Some l)
  have "map fst (relayByUrl (addRelays (unique l) (empty_world no_cache :: 'cb world))) =
      fold (\<lambda>x acc. if x \<in> set acc then acc else acc @ [x]) (unique l) []"
    by (simp add: addRelays_keys empty_world_def)
  also have "\<dots> = unique (unique l)" by (simp add: unique_def)
  also have "\<dots> = unique l"
    using fold_distinct[of "[]" "unique l"] by (simp add: unique_def[of "unique l"] distinct_unique)
  finally show ?thesis using Some by (simp add: new_RelayPool_def)
qed

text \<open>
  C5.  A second \<open>addOrGetRelay\<close> of a URL returns the instance of the first and changes
  nothing, and so does any later one, whatever other URLs were requested in between.
  After the constructor and any sequence of \<open>addOrGetRelay\<close> calls, the keys of
  \<open>relayByUrl\<close> are the URLs requested, each once, in the order of their first request:
  the size of \<open>relayByUrl\<close> is the number of distinct URLs requested, and the instances
  are distinct.
\<close>

theorem addOrGetRelay_idempotent:
  fixes w :: "'cb world"
  shows
  "addOrGetRelay r (snd (addOrGetRelay r w)) = (fst (addOrGetRelay r w), snd (addOrGetRelay r w)) \<and>
   fst (addOrGetRelay r (addRelays rs (snd (addOrGetRelay r w)))) = fst (addOrGetRelay r w) \<and>
   map fst (relayByUrl (addRelays rs (new_RelayPool init no_cache :: 'cb world))) =
     unique ((case init of None \<Rightarrow> [] | Some l \<Rightarrow> l) @ rs) \<and>
   length (relayByUrl (addRelays rs (new_RelayPool init no_cache :: 'cb world))) =
     card (set (case init of None \<Rightarrow> [] | Some l \<Rightarrow> l) \<union> set rs) \<and>
   distinct (map snd (relayByUrl (addRelays rs (new_RelayPool init no_cache :: 'cb world))))"
proof -
  let ?l = "case init of None \<Rightarrow> [] | Some l \<Rightarrow> l"
  have a: "addOrGetRelay r (snd (addOrGetRelay r w)) =
      (fst (addOrGetRelay r w), snd (addOrGetRelay r w))" by (rule addOrGetRelay_again)
  have "map_of (relayByUrl (addRelays rs (snd (addOrGetRelay r w)))) r = Some (fst (addOrGetRelay r w))"
    using addRelays_keeps[OF addOrGetRelay_lookup] .
  then have b: "fst (addOrGetRelay r (addRelays rs (snd (addOrGetRelay r w)))) = fst (addOrGetRelay r w)"
    by (simp add: addOrGetRelay_hit)
  have c: "map fst (relayByUrl (addRelays rs (new_RelayPool init no_cache :: 'cb world))) = unique (?l @ rs)"
    by (simp add: addRelays_keys new_RelayPool_keys unique_append)
  have "length (relayByUrl (addRelays rs (new_RelayPool init no_cache :: 'cb world))) =
      length (unique (?l @ rs))"
    using arg_cong[OF c, of length] by simp
  then have d: "length (relayByUrl (addRelays rs (new_RelayPool init no_cache :: 'cb world))) =
      card (set ?l \<union> set rs)" by (simp add: length_unique)
  have "pool_ok (addRelays rs (new_RelayPool init no_cache :: 'cb world))"
    using addRelays_pool_ok[OF new_RelayPool_ok] .
  then have e: "distinct (map snd (relayByUrl (addRelays rs (new_RelayPool init no_cache :: 'cb world))))"
    by (simp add: pool_ok_def registry_ok_def)
  show ?thesis using a b c d e by blast
qed

section \<open>Claims about \<open>publish\<close>\<close>


lemma registry_bound:
  assumes "registry_ok w" "map_of (relayByUrl w) u = Some i"
  shows "i < length (relay_objs w)"
  using assms by (auto simp: registry_ok_def list_all_iff dest: map_of_SomeD)

lemma relay_publish_frame [simp]:
  "relayByUrl (relay_publish i e w) = relayByUrl w"
  "length (relay_objs (relay_publish i e w)) = length (relay_objs w)"
  by (simp_all add: relay_publish_def)














section \<open>Claims about the observers\<close>

lemma grows_refl: "grows_by_new f w w"
  unfolding grows_by_new_def by (rule exI[of _ "[]"]) simp

lemma grows_same: "map f (relay_objs w') = map f (relay_objs w) \<Longrightarrow> grows_by_new f w w'"
  unfolding grows_by_new_def by (rule exI[of _ "[]"]) simp

lemma grows_trans: "grows_by_new f w w1 \<Longrightarrow> grows_by_new f w1 w2 \<Longrightarrow> grows_by_new f w w2"
  unfolding grows_by_new_def
proof -
  assume "\<exists>us. map f (relay_objs w1) = map f (relay_objs w) @ map (\<lambda>u. f (relayInit u)) us"
     and "\<exists>us. map f (relay_objs w2) = map f (relay_objs w1) @ map (\<lambda>u. f (relayInit u)) us"
  then obtain us vs where
    "map f (relay_objs w1) = map f (relay_objs w) @ map (\<lambda>u. f (relayInit u)) us"
    "map f (relay_objs w2) = map f (relay_objs w1) @ map (\<lambda>u. f (relayInit u)) vs" by blast
  then have "map f (relay_objs w2) = map f (relay_objs w) @ map (\<lambda>u. f (relayInit u)) (us @ vs)"
    by simp
  then show "\<exists>us. map f (relay_objs w2) = map f (relay_objs w) @ map (\<lambda>u. f (relayInit u)) us"
    by blast
qed

lemma grows_fold:
  assumes "\<And>x w. grows_by_new f w (g x w)"
  shows "grows_by_new f w (fold g xs w)"
proof (induction xs arbitrary: w)
  case Nil
  show ?case by (simp add: grows_refl)
next
  case (Cons x xs)
  show ?case using grows_trans[OF assms[of w x] Cons.IH[of "g x w"]] by simp
qed

lemma map_update_same:
  assumes "f y = f (xs ! i)"
  shows "map f (xs[i := y]) = map f xs"
proof (cases "i < length xs")
  case True
  then show ?thesis using assms by (simp add: map_update list_update_same_conv)
next
  case False
  then have "length xs \<le> i" by simp
  then show ?thesis by (simp add: list_update_beyond)
qed

lemma grows_addOrGetRelay: "grows_by_new f w (snd (addOrGetRelay r w))"
proof (cases "r \<in> fst ` set (relayByUrl w)")
  case True
  then show ?thesis by (simp add: grows_same addOrGetRelay_objs)
next
  case False
  then show ?thesis
    unfolding grows_by_new_def by (intro exI[of _ "[r]"]) (simp add: addOrGetRelay_objs)
qed

lemma grows_subscribeRelay: "grows_by_new f w (snd (subscribeRelay D r fs cb oe w))"
proof (cases "mergeSimilarAndRemoveEmptyFilters D fs = []")
  case True
  then show ?thesis by (simp add: subscribeRelay_empty grows_refl)
next
  case False
  have "grows_by_new f (snd (addOrGetRelay r w)) (snd (subscribeRelay D r fs cb oe w))"
    using False by (intro grows_same) (simp add: subscribeRelay_opens)
  then show ?thesis using grows_trans[OF grows_addOrGetRelay] by blast
qed

lemma grows_loop: "grows_by_new f w (snd (subscribeRelays_loop D m cb oe subs w))"
proof (induction m arbitrary: subs w)
  case Nil
  show ?case by (simp add: grows_refl)
next
  case (Cons a m)
  obtain r fs where a: "a = (r, fs)" by force
  obtain x w1 where sr: "subscribeRelay D r fs cb oe w = (x, w1)" by force
  have g1: "grows_by_new f w w1" using grows_subscribeRelay[of f w D r fs cb oe] sr by simp
  show ?case
    using grows_trans[OF g1 Cons.IH[of w1]] sr a by (cases x) simp_all
qed

lemma grows_sendSubscriptions: "grows_by_new f w (snd (sendSubscriptions D oe w))"
proof -
  let ?w0 = "(clearTimeout (timer w) w)\<lparr>timer := None, minMaxDelayms := PosInf,
               filtersToSubscribe := []\<rparr>"
  have "grows_by_new f w ?w0" by (intro grows_same) simp
  then show ?thesis
    unfolding sendSubscriptions_unfold snd_conv by (rule grows_trans[OF _ grows_loop])
qed

lemma grows_subscribe: "grows_by_new f w (snd (subscribe D fs rs cb d oe opts w))"
proof -
  let ?g = "groupFiltersByRelayAndEmitCacheHits D fs rs cb opts (eventCache w)"
  let ?w2 = "w\<lparr>trace := trace w @ snd ?g, filtersToSubscribe := filtersToSubscribe w @ [fst ?g]\<rparr>"
  have g2: "grows_by_new f w ?w2" by (intro grows_same) simp
  show ?thesis
  proof (cases "truthy d \<and> oe \<noteq> None")
    case True
    then show ?thesis by (simp add: subscribe_def grows_refl)
  next
    case False
    show ?thesis
    proof (cases "truthy d")
      case True
      then obtain n where n: "d = Some n" by (cases d) auto
      have "grows_by_new f ?w2 (resetTimer n ?w2)" by (intro grows_same) simp
      then have "grows_by_new f w (resetTimer n ?w2)" using grows_trans[OF g2] by blast
      then show ?thesis using True False n by (simp add: subscribe_def Let_def split_beta)
    next
      case no: False
      have "grows_by_new f w (snd (sendSubscriptions D oe ?w2))"
        using grows_trans[OF g2 grows_sendSubscriptions] .
      then show ?thesis using no by (simp add: subscribe_def Let_def split_beta)
    qed
  qed
qed

lemma grows_timer_fires: "grows_by_new f w (timer_fires D t w)"
proof (cases "t \<in> tm_id ` set (timers w)")
  case False
  then show ?thesis by (simp add: timer_fires_def grows_refl)
next
  case True
  let ?w1 = "w\<lparr>timers := filter (\<lambda>tm. tm_id tm \<noteq> t) (timers w)\<rparr>"
  have "grows_by_new f w ?w1" by (intro grows_same) simp
  then have "grows_by_new f w (snd (sendSubscriptions D None ?w1))"
    by (rule grows_trans[OF _ grows_sendSubscriptions])
  then show ?thesis using True by (simp add: timer_fires_def)
qed

lemma grows_advance:
  fixes w :: "'cb world"
  shows "grows_by_new f w (advance D t w)"
proof -
  let ?g = "\<lambda>tm w. timer_fires D (tm_id tm) (w\<lparr>clock := max (clock w) (deadline tm)\<rparr>)"
  have one: "\<And>tm w. grows_by_new f w (?g tm w)"
  proof -
    fix tm and w :: "'cb world"
    have "grows_by_new f w (w\<lparr>clock := max (clock w) (deadline tm)\<rparr>)"
      by (intro grows_same) simp
    then show "grows_by_new f w (?g tm w)" by (rule grows_trans[OF _ grows_timer_fires])
  qed
  let ?due = "sort_key deadline (filter (\<lambda>tm. deadline tm \<le> t) (timers w))"
  have "grows_by_new f w (fold ?g ?due w)" using one by (rule grows_fold)
  moreover have "grows_by_new f (fold ?g ?due w) (advance D t w)"
    unfolding advance_def Let_def by (intro grows_same) simp
  ultimately show ?thesis by (rule grows_trans)
qed

lemma grows_step:
  fixes w :: "'cb world"
  assumes p: "\<And>x l. f (x\<lparr>published := l\<rparr>) = f x"
      and c: "\<And>x l. f (x\<lparr>conn := l\<rparr>) = f x"
      and n: "\<And>x l. f (x\<lparr>notice_listener := l\<rparr>) = f x"
      and k: "\<And>x l. f (x\<lparr>closed := l\<rparr>) = f x"
      and e: "\<And>x l. registers_error a \<Longrightarrow> f (x\<lparr>error_listeners := l\<rparr>) = f x"
      and d: "\<And>x l. registers_disconnect a \<Longrightarrow> f (x\<lparr>disconnect_listeners := l\<rparr>) = f x"
  shows "grows_by_new f w (step D a w)"
proof (cases a)
  case (Subscribe x1 x2 x3 x4 x5 x6)
  then show ?thesis by (simp add: grows_subscribe)
next
  case (SendSubscriptions x)
  then show ?thesis by (simp add: grows_sendSubscriptions)
next
  case (AddOrGetRelay x)
  then show ?thesis by (simp add: grows_addOrGetRelay)
next
  case (Publish ev rs)
  have one: "\<And>u w. grows_by_new f w (publish_one ev u (w :: 'cb world))"
  proof -
    fix u and w :: "'cb world"
    have "grows_by_new f (snd (addOrGetRelay u w)) (publish_one ev u w)"
      by (intro grows_same)
         (simp add: publish_one_def split_beta relay_publish_def map_update_same p)
    then show "grows_by_new f w (publish_one ev u w)"
      by (rule grows_trans[OF grows_addOrGetRelay])
  qed
  have "grows_by_new f w (fold (publish_one ev) (unique rs) w)" using one by (rule grows_fold)
  then show ?thesis using Publish by (simp add: publish_def)
next
  case (OnNotice x)
  then show ?thesis by (simp add: onnotice_def grows_same)
next
  case (OnError cb)
  have "\<And>x w. grows_by_new f w (relay_on_error cb x (w :: 'cb world))"
    using e OnError
    by (intro grows_same) (simp add: relay_on_error_def split_beta map_update_same)
  then have "grows_by_new f w (fold (relay_on_error cb) (relayByUrl w) w)" by (rule grows_fold)
  then show ?thesis using OnError by (simp add: onerror_def)
next
  case (OnDisconnect cb)
  have "\<And>x w. grows_by_new f w (relay_on_disconnect cb x (w :: 'cb world))"
    using d OnDisconnect
    by (intro grows_same) (simp add: relay_on_disconnect_def split_beta map_update_same)
  then have "grows_by_new f w (fold (relay_on_disconnect cb) (relayByUrl w) w)"
    by (rule grows_fold)
  then show ?thesis using OnDisconnect by (simp add: ondisconnect_def)
next
  case Close
  have "\<And>x w. grows_by_new f w (relay_close x (w :: 'cb world))"
    by (intro grows_same) (simp add: relay_close_def map_update_same k)
  then have "grows_by_new f w (fold relay_close (map snd (relayByUrl w)) w)"
    by (rule grows_fold)
  moreover have "grows_by_new f (fold relay_close (map snd (relayByUrl w)) w) (close w)"
    by (intro grows_same) (simp add: close_def)
  ultimately show ?thesis using Close grows_trans by auto
next
  case (CallCancel x)
  have "\<And>x w. grows_by_new f w (sub_unsub x (w :: 'cb world))"
    by (intro grows_same) (simp add: sub_unsub_def)
  then have "\<And>subs. grows_by_new f w (fold sub_unsub subs w)" by (rule grows_fold)
  then show ?thesis using CallCancel by (cases x) (simp_all add: grows_refl)
next
  case (ConnectFulfilled x)
  then show ?thesis
    by (intro grows_same) (simp add: connect_fulfilled_def map_update_same c n)
next
  case (ConnectRejected x)
  then show ?thesis
    by (intro grows_same) (simp add: connect_rejected_def map_update_same c)
next
  case (RelayEmitNotice x1 x2)
  then show ?thesis by (intro grows_same) (simp add: relay_emit_notice_def)
next
  case (RelayEmitError x1 x2)
  then show ?thesis by (intro grows_same) (simp add: relay_emit_error_def)
next
  case (RelayEmitDisconnect x1 x2)
  then show ?thesis by (intro grows_same) (simp add: relay_emit_disconnect_def)
next
  case (SubEmitEvent x1 x2)
  then show ?thesis by (intro grows_same) (simp add: sub_emit_event_def Let_def)
next
  case (SubEmitEose x)
  then show ?thesis
    by (intro grows_same) (simp add: sub_emit_eose_def Let_def split: option.splits)
next
  case (TimerFires x)
  then show ?thesis by (simp add: grows_timer_fires)
next
  case (Advance x)
  then show ?thesis by (simp add: grows_advance)
qed

lemma grows_run_error:
  "list_all (\<lambda>a. \<not> registers_error a) acts \<Longrightarrow>
   grows_by_new error_listeners w (run D acts w)"
proof (induction acts arbitrary: w)
  case Nil
  show ?case by (simp add: run_def grows_refl)
next
  case (Cons a acts)
  have "grows_by_new error_listeners w (step D a w)"
    using Cons.prems by (intro grows_step) simp_all
  moreover have "grows_by_new error_listeners (step D a w) (run D acts (step D a w))"
    using Cons.IH Cons.prems by simp
  ultimately show ?case using grows_trans by (fastforce simp: run_def)
qed

lemma grows_run_disconnect:
  "list_all (\<lambda>a. \<not> registers_disconnect a) acts \<Longrightarrow>
   grows_by_new disconnect_listeners w (run D acts w)"
proof (induction acts arbitrary: w)
  case Nil
  show ?case by (simp add: run_def grows_refl)
next
  case (Cons a acts)
  have "grows_by_new disconnect_listeners w (step D a w)"
    using Cons.prems by (intro grows_step) simp_all
  moreover have "grows_by_new disconnect_listeners (step D a w) (run D acts (step D a w))"
    using Cons.IH Cons.prems by simp
  ultimately show ?case using grows_trans by (fastforce simp: run_def)
qed

lemma grows_new_nth:
  assumes "grows_by_new f w w'" and "length (relay_objs w) \<le> j" and "j < length (relay_objs w')"
  shows "\<exists>u. f (relay_objs w' ! j) = f (relayInit u)"
proof -
  obtain us where us: "map f (relay_objs w') = map f (relay_objs w) @ map (\<lambda>u. f (relayInit u)) us"
    using assms(1) unfolding grows_by_new_def by blast
  have "f (relay_objs w' ! j) = map f (relay_objs w') ! j" using assms(3) by simp
  also have "\<dots> = map (\<lambda>u. f (relayInit u)) us ! (j - length (relay_objs w))"
    unfolding us using assms(2) by (simp add: nth_append)
  also have "j - length (relay_objs w) < length us"
    using arg_cong[OF us, of length] assms(2,3) by simp
  then have "map (\<lambda>u. f (relayInit u)) us ! (j - length (relay_objs w)) =
      f (relayInit (us ! (j - length (relay_objs w))))" by simp
  finally show ?thesis by blast
qed

lemma grows_old_nth:
  assumes "grows_by_new f w w'" and "j < length (relay_objs w)"
  shows "f (relay_objs w' ! j) = f (relay_objs w ! j)"
proof -
  obtain us where us: "map f (relay_objs w') = map f (relay_objs w) @ map (\<lambda>u. f (relayInit u)) us"
    using assms(1) unfolding grows_by_new_def by blast
  have l: "j < length (relay_objs w')" using arg_cong[OF us, of length] assms(2) by simp
  have "f (relay_objs w' ! j) = map f (relay_objs w') ! j" using l by simp
  also have "\<dots> = map f (relay_objs w) ! j" unfolding us using assms(2) by (simp add: nth_append)
  finally show ?thesis using assms(2) by simp
qed

lemma fold_preserves:
  assumes "\<And>x w. g (f x w) = g w"
  shows "g (fold f xs w) = g w"
  by (induction xs arbitrary: w) (simp_all add: assms)

lemma step_noticecbs:
  "noticecbs (step D a w) = noticecbs w @ (case a of OnNotice cb \<Rightarrow> [cb] | _ \<Rightarrow> [])"
proof (cases a)
  case (Subscribe fs rs cb d oe opts)
  let ?g = "groupFiltersByRelayAndEmitCacheHits D fs rs cb opts (eventCache w)"
  let ?w2 = "w\<lparr>trace := trace w @ snd ?g, filtersToSubscribe := filtersToSubscribe w @ [fst ?g]\<rparr>"
  have "noticecbs (snd (subscribe D fs rs cb d oe opts w)) = noticecbs w"
  proof (cases "truthy d \<and> oe \<noteq> None")
    case True
    then show ?thesis by (simp add: subscribe_def)
  next
    case False
    show ?thesis
    proof (cases "truthy d")
      case True
      then obtain n where "d = Some n" by (cases d) auto
      then show ?thesis using True False by (simp add: subscribe_def Let_def split_beta)
    next
      case no: False
      then show ?thesis by (simp add: subscribe_def Let_def split_beta)
    qed
  qed
  then show ?thesis using Subscribe by simp
next
  case (Publish ev rs)
  have "noticecbs (fold (publish_one ev) (unique rs) w) = noticecbs w"
    by (rule fold_preserves) (simp add: publish_one_def split_beta relay_publish_def)
  then show ?thesis using Publish by (simp add: publish_def)
next
  case (OnError cb)
  have "noticecbs (fold (relay_on_error cb) (relayByUrl w) w) = noticecbs w"
    by (rule fold_preserves) (simp add: relay_on_error_def split_beta)
  then show ?thesis using OnError by (simp add: onerror_def)
next
  case (OnDisconnect cb)
  have "noticecbs (fold (relay_on_disconnect cb) (relayByUrl w) w) = noticecbs w"
    by (rule fold_preserves) (simp add: relay_on_disconnect_def split_beta)
  then show ?thesis using OnDisconnect by (simp add: ondisconnect_def)
next
  case Close
  have "noticecbs (fold relay_close (map snd (relayByUrl w)) w) = noticecbs w"
    by (rule fold_preserves) (simp add: relay_close_def)
  then show ?thesis using Close by (simp add: close_def)
next
  case (CallCancel c)
  have "\<And>subs. noticecbs (fold sub_unsub subs w) = noticecbs w"
    by (rule fold_preserves) (simp add: sub_unsub_def)
  then show ?thesis using CallCancel by (cases c) simp_all
next
  case (TimerFires t)
  then show ?thesis by (simp add: timer_fires_def)
next
  case (Advance t)
  have "noticecbs (fold (\<lambda>tm w. timer_fires D (tm_id tm) (w\<lparr>clock := max (clock w) (deadline tm)\<rparr>))
      (sort_key deadline (filter (\<lambda>tm. deadline tm \<le> t) (timers w))) w) = noticecbs w"
    by (rule fold_preserves) (simp add: timer_fires_def)
  then show ?thesis using Advance by (simp add: advance_def Let_def)
qed (simp_all add: onnotice_def connect_fulfilled_def connect_rejected_def relay_emit_notice_def
      relay_emit_error_def relay_emit_disconnect_def sub_emit_event_def sub_emit_eose_def Let_def
      split: option.splits)

lemma run_noticecbs: "cb \<in> set (noticecbs w) \<Longrightarrow> cb \<in> set (noticecbs (run D acts w))"
  unfolding run_def
  by (rule fold_invariant[where P = "\<lambda>x. cb \<in> set (noticecbs x)"])
     (simp_all add: step_noticecbs)

lemma relay_on_error_length [simp]:
  "length (relay_objs (relay_on_error cb x w)) = length (relay_objs w)"
  by (simp add: relay_on_error_def split_beta)

lemma relay_on_error_nth:
  "j < length (relay_objs w) \<Longrightarrow>
   error_listeners (relay_objs (relay_on_error cb (u, i) w) ! j) =
     error_listeners (relay_objs w ! j) @ (if i = j then [(cb, u)] else [])"
  by (simp add: relay_on_error_def nth_list_update)

lemma onerror_fold_other:
  "j \<notin> snd ` set m \<Longrightarrow> j < length (relay_objs w) \<Longrightarrow>
   error_listeners (relay_objs (fold (relay_on_error cb) m w) ! j) =
     error_listeners (relay_objs w ! j)"
proof (induction m arbitrary: w)
  case Nil
  show ?case by simp
next
  case (Cons a m)
  obtain u i where a: "a = (u, i)" by force
  have "i \<noteq> j" "j \<notin> snd ` set m" using Cons.prems(1) a by auto
  then show ?case
    using Cons.IH[of "relay_on_error cb a w"] Cons.prems(2) a by (simp add: relay_on_error_nth)
qed

lemma onerror_fold_present:
  "distinct (map snd m) \<Longrightarrow> (u, j) \<in> set m \<Longrightarrow> j < length (relay_objs w) \<Longrightarrow>
   error_listeners (relay_objs (fold (relay_on_error cb) m w) ! j) =
     error_listeners (relay_objs w ! j) @ [(cb, u)]"
proof (induction m arbitrary: w)
  case Nil
  then show ?case by simp
next
  case (Cons a m)
  obtain u' i where a: "a = (u', i)" by force
  have d: "distinct (map snd m)" "i \<notin> snd ` set m" using Cons.prems(1) a by auto
  have l: "j < length (relay_objs (relay_on_error cb a w))" using Cons.prems(3) by simp
  show ?case
  proof (cases "(u, j) = a")
    case True
    then have "j \<notin> snd ` set m" using d(2) a by simp
    then show ?thesis
      using onerror_fold_other[of j m "relay_on_error cb a w" cb] l True a Cons.prems(3)
      by (simp add: relay_on_error_nth)
  next
    case False
    then have in_m: "(u, j) \<in> set m" using Cons.prems(2) by simp
    then have "i \<noteq> j" using d(2) by force
    then show ?thesis
      using Cons.IH[OF d(1) in_m l] a Cons.prems(3) by (simp add: relay_on_error_nth)
  qed
qed

lemma relay_on_disconnect_length [simp]:
  "length (relay_objs (relay_on_disconnect cb x w)) = length (relay_objs w)"
  by (simp add: relay_on_disconnect_def split_beta)

lemma relay_on_disconnect_nth:
  "j < length (relay_objs w) \<Longrightarrow>
   disconnect_listeners (relay_objs (relay_on_disconnect cb (u, i) w) ! j) =
     disconnect_listeners (relay_objs w ! j) @ (if i = j then [(cb, u)] else [])"
  by (simp add: relay_on_disconnect_def nth_list_update)

lemma ondisconnect_fold_other:
  "j \<notin> snd ` set m \<Longrightarrow> j < length (relay_objs w) \<Longrightarrow>
   disconnect_listeners (relay_objs (fold (relay_on_disconnect cb) m w) ! j) =
     disconnect_listeners (relay_objs w ! j)"
proof (induction m arbitrary: w)
  case Nil
  show ?case by simp
next
  case (Cons a m)
  obtain u i where a: "a = (u, i)" by force
  have "i \<noteq> j" "j \<notin> snd ` set m" using Cons.prems(1) a by auto
  then show ?case
    using Cons.IH[of "relay_on_disconnect cb a w"] Cons.prems(2) a
    by (simp add: relay_on_disconnect_nth)
qed

lemma ondisconnect_fold_present:
  "distinct (map snd m) \<Longrightarrow> (u, j) \<in> set m \<Longrightarrow> j < length (relay_objs w) \<Longrightarrow>
   disconnect_listeners (relay_objs (fold (relay_on_disconnect cb) m w) ! j) =
     disconnect_listeners (relay_objs w ! j) @ [(cb, u)]"
proof (induction m arbitrary: w)
  case Nil
  then show ?case by simp
next
  case (Cons a m)
  obtain u' i where a: "a = (u', i)" by force
  have d: "distinct (map snd m)" "i \<notin> snd ` set m" using Cons.prems(1) a by auto
  have l: "j < length (relay_objs (relay_on_disconnect cb a w))" using Cons.prems(3) by simp
  show ?case
  proof (cases "(u, j) = a")
    case True
    then have "j \<notin> snd ` set m" using d(2) a by simp
    then show ?thesis
      using ondisconnect_fold_other[of j m "relay_on_disconnect cb a w" cb] l True a Cons.prems(3)
      by (simp add: relay_on_disconnect_nth)
  next
    case False
    then have in_m: "(u, j) \<in> set m" using Cons.prems(2) by simp
    then have "i \<noteq> j" using d(2) by force
    then show ?thesis
      using Cons.IH[OF d(1) in_m l] a Cons.prems(3) by (simp add: relay_on_disconnect_nth)
  qed
qed

lemma new_relay_notice:
  assumes "map_of (relayByUrl v) r = None"
  shows "trace (relay_emit_notice (fst (addOrGetRelay r v)) msg
            (connect_fulfilled (fst (addOrGetRelay r v)) (snd (addOrGetRelay r v)))) =
         trace v @ map (\<lambda>c. NoticeCall c r msg) (noticecbs v)"
  using assms
  by (simp add: addOrGetRelay_miss connect_fulfilled_def relay_emit_notice_def relayInit_def)

lemma onerror_length: "length (relay_objs (onerror cb w)) = length (relay_objs w)"
  unfolding onerror_def by (rule fold_preserves) simp

lemma ondisconnect_length: "length (relay_objs (ondisconnect cb w)) = length (relay_objs w)"
  unfolding ondisconnect_def by (rule fold_preserves) simp

text \<open>
  C8.  A callback registered by \<open>onnotice\<close> stays in \<open>noticecbs\<close> through every history;
  a notice from an instance whose \<open>connect()\<close> was fulfilled calls every callback of
  \<open>noticecbs\<close>, and so does a notice from a relay that is added, and connects, after the
  registration.  \<open>onerror\<close> and \<open>ondisconnect\<close> add their listener to the instances
  that \<open>relayByUrl\<close> holds at that time and to no other object; an instance created
  afterwards has no error (disconnect) listener for as long as no other error
  (disconnect) observer is registered, so its errors (disconnects) call nothing.
\<close>

theorem observers_wiring:
  assumes "registry_ok w"
      and "list_all (\<lambda>a. \<not> registers_error a) acts_e"
      and "list_all (\<lambda>a. \<not> registers_disconnect a) acts_d"
  shows "cb \<in> set (noticecbs (run D acts (onnotice cb wn))) \<and>
         (i < length (relay_objs v) \<and> notice_listener (relay_objs v ! i) \<longrightarrow>
            trace (relay_emit_notice i msg v) =
              trace v @ map (\<lambda>c. NoticeCall c (relay_url (relay_objs v ! i)) msg) (noticecbs v)) \<and>
         (map_of (relayByUrl v) r = None \<longrightarrow>
            trace (relay_emit_notice (fst (addOrGetRelay r v)) msg
               (connect_fulfilled (fst (addOrGetRelay r v)) (snd (addOrGetRelay r v)))) =
              trace v @ map (\<lambda>c. NoticeCall c r msg) (noticecbs v)) \<and>
         (map_of (relayByUrl w) u = Some k \<longrightarrow>
            error_listeners (relay_objs (onerror cb w) ! k) =
              error_listeners (relay_objs w ! k) @ [(cb, u)] \<and>
            disconnect_listeners (relay_objs (ondisconnect cb w) ! k) =
              disconnect_listeners (relay_objs w ! k) @ [(cb, u)]) \<and>
         (j < length (relay_objs w) \<and> j \<notin> snd ` set (relayByUrl w) \<longrightarrow>
            error_listeners (relay_objs (onerror cb w) ! j) = error_listeners (relay_objs w ! j) \<and>
            disconnect_listeners (relay_objs (ondisconnect cb w) ! j) =
              disconnect_listeners (relay_objs w ! j)) \<and>
         (length (relay_objs w) \<le> n \<and> n < length (relay_objs (run D acts_e (onerror cb w))) \<longrightarrow>
            error_listeners (relay_objs (run D acts_e (onerror cb w)) ! n) = [] \<and>
            trace (relay_emit_error n msg (run D acts_e (onerror cb w))) =
              trace (run D acts_e (onerror cb w))) \<and>
         (length (relay_objs w) \<le> n \<and> n < length (relay_objs (run D acts_d (ondisconnect cb w))) \<longrightarrow>
            disconnect_listeners (relay_objs (run D acts_d (ondisconnect cb w)) ! n) = [] \<and>
            trace (relay_emit_disconnect n msg (run D acts_d (ondisconnect cb w))) =
              trace (run D acts_d (ondisconnect cb w))) \<and>
         (i < length (relay_objs v) \<longrightarrow>
            trace (relay_emit_error i msg v) =
              trace v @ map (\<lambda>(c, u). ErrorCall c u msg) (error_listeners (relay_objs v ! i)) \<and>
            trace (relay_emit_disconnect i msg v) =
              trace v @ map (\<lambda>(c, u). DisconnectCall c u msg)
                          (disconnect_listeners (relay_objs v ! i)))"
proof -
  have n1: "cb \<in> set (noticecbs (run D acts (onnotice cb wn)))"
    by (rule run_noticecbs) (simp add: onnotice_def)
  have n2: "i < length (relay_objs v) \<and> notice_listener (relay_objs v ! i) \<longrightarrow>
            trace (relay_emit_notice i msg v) =
              trace v @ map (\<lambda>c. NoticeCall c (relay_url (relay_objs v ! i)) msg) (noticecbs v)"
    by (simp add: relay_emit_notice_def)
  have n3: "map_of (relayByUrl v) r = None \<longrightarrow>
            trace (relay_emit_notice (fst (addOrGetRelay r v)) msg
               (connect_fulfilled (fst (addOrGetRelay r v)) (snd (addOrGetRelay r v)))) =
              trace v @ map (\<lambda>c. NoticeCall c r msg) (noticecbs v)"
    using new_relay_notice by blast
  have dist: "distinct (map snd (relayByUrl w))" using assms(1) by (simp add: registry_ok_def)
  have e1: "map_of (relayByUrl w) u = Some k \<longrightarrow>
            error_listeners (relay_objs (onerror cb w) ! k) =
              error_listeners (relay_objs w ! k) @ [(cb, u)] \<and>
            disconnect_listeners (relay_objs (ondisconnect cb w) ! k) =
              disconnect_listeners (relay_objs w ! k) @ [(cb, u)]"
  proof
    assume m: "map_of (relayByUrl w) u = Some k"
    have mem: "(u, k) \<in> set (relayByUrl w)" using m by (rule map_of_SomeD)
    have kl: "k < length (relay_objs w)" using registry_bound[OF assms(1) m] .
    show "error_listeners (relay_objs (onerror cb w) ! k) =
              error_listeners (relay_objs w ! k) @ [(cb, u)] \<and>
          disconnect_listeners (relay_objs (ondisconnect cb w) ! k) =
              disconnect_listeners (relay_objs w ! k) @ [(cb, u)]"
      unfolding onerror_def ondisconnect_def
      using onerror_fold_present[OF dist mem kl] ondisconnect_fold_present[OF dist mem kl]
      by simp
  qed
  have e2: "j < length (relay_objs w) \<and> j \<notin> snd ` set (relayByUrl w) \<longrightarrow>
            error_listeners (relay_objs (onerror cb w) ! j) = error_listeners (relay_objs w ! j) \<and>
            disconnect_listeners (relay_objs (ondisconnect cb w) ! j) =
              disconnect_listeners (relay_objs w ! j)"
    unfolding onerror_def ondisconnect_def
    using onerror_fold_other ondisconnect_fold_other by blast
  have e3: "length (relay_objs w) \<le> n \<and> n < length (relay_objs (run D acts_e (onerror cb w))) \<longrightarrow>
            error_listeners (relay_objs (run D acts_e (onerror cb w)) ! n) = [] \<and>
            trace (relay_emit_error n msg (run D acts_e (onerror cb w))) =
              trace (run D acts_e (onerror cb w))"
  proof
    assume a: "length (relay_objs w) \<le> n \<and> n < length (relay_objs (run D acts_e (onerror cb w)))"
    have "\<exists>x. error_listeners (relay_objs (run D acts_e (onerror cb w)) ! n) =
        error_listeners (relayInit x)"
      using grows_new_nth[OF grows_run_error[OF assms(2)], of "onerror cb w" n D] a
      by (simp add: onerror_length)
    then have "error_listeners (relay_objs (run D acts_e (onerror cb w)) ! n) = []"
      by (auto simp: relayInit_def)
    then show "error_listeners (relay_objs (run D acts_e (onerror cb w)) ! n) = [] \<and>
            trace (relay_emit_error n msg (run D acts_e (onerror cb w))) =
              trace (run D acts_e (onerror cb w))"
      by (simp add: relay_emit_error_def)
  qed
  have d3: "length (relay_objs w) \<le> n \<and> n < length (relay_objs (run D acts_d (ondisconnect cb w))) \<longrightarrow>
            disconnect_listeners (relay_objs (run D acts_d (ondisconnect cb w)) ! n) = [] \<and>
            trace (relay_emit_disconnect n msg (run D acts_d (ondisconnect cb w))) =
              trace (run D acts_d (ondisconnect cb w))"
  proof
    assume a: "length (relay_objs w) \<le> n \<and>
        n < length (relay_objs (run D acts_d (ondisconnect cb w)))"
    have "\<exists>x. disconnect_listeners (relay_objs (run D acts_d (ondisconnect cb w)) ! n) =
        disconnect_listeners (relayInit x)"
      using grows_new_nth[OF grows_run_disconnect[OF assms(3)], of "ondisconnect cb w" n D] a
      by (simp add: ondisconnect_length)
    then have "disconnect_listeners (relay_objs (run D acts_d (ondisconnect cb w)) ! n) = []"
      by (auto simp: relayInit_def)
    then show "disconnect_listeners (relay_objs (run D acts_d (ondisconnect cb w)) ! n) = [] \<and>
            trace (relay_emit_disconnect n msg (run D acts_d (ondisconnect cb w))) =
              trace (run D acts_d (ondisconnect cb w))"
      by (simp add: relay_emit_disconnect_def)
  qed
  have e4: "i < length (relay_objs v) \<longrightarrow>
            trace (relay_emit_error i msg v) =
              trace v @ map (\<lambda>(c, u). ErrorCall c u msg) (error_listeners (relay_objs v ! i)) \<and>
            trace (relay_emit_disconnect i msg v) =
              trace v @ map (\<lambda>(c, u). DisconnectCall c u msg)
                          (disconnect_listeners (relay_objs v ! i))"
    by (simp add: relay_emit_error_def relay_emit_disconnect_def)
  show ?thesis using n1 n2 n3 e1 e2 e3 d3 e4 by blast
qed

text \<open>
  An instance of C8: observers registered on a pool of \<open>wss://a\<close>, then \<open>wss://b\<close>
  added; both relays connect and each emits a notice, an error and a disconnect.
\<close>

theorem observers_wiring_witness:
  "registry_ok (new_RelayPool (Some [''wss://a'']) False :: on_event world) \<and>
   list_all (\<lambda>a. \<not> registers_error a) [AddOrGetRelay ''wss://b'', ConnectFulfilled 1 :: on_event action] \<and>
   list_all (\<lambda>a. \<not> registers_disconnect a) [AddOrGetRelay ''wss://b'', ConnectFulfilled 1 :: on_event action] \<and>
   1 \<in> set (noticecbs (run spec_deps [AddOrGetRelay ''wss://b'', ConnectFulfilled 1]
      (onnotice 1 (new_RelayPool (Some [''wss://a'']) False)))) \<and>
   error_listeners (relay_objs (onerror 2 (new_RelayPool (Some [''wss://a'']) False :: on_event world)) ! 0) =
     [(2, ''wss://a'')] \<and>
   error_listeners (relay_objs (run spec_deps [AddOrGetRelay ''wss://b'', ConnectFulfilled 1]
      (onerror 2 (new_RelayPool (Some [''wss://a'']) False))) ! 1) = [] \<and>
   disconnect_listeners (relay_objs (run spec_deps [AddOrGetRelay ''wss://b'', ConnectFulfilled 1]
      (ondisconnect 3 (new_RelayPool (Some [''wss://a'']) False))) ! 1) = [] \<and>
   trace (run spec_deps
      [OnNotice 1, OnError 2, OnDisconnect 3, AddOrGetRelay ''wss://b'',
       ConnectFulfilled 0, ConnectFulfilled 1,
       RelayEmitNotice 1 ''hello'', RelayEmitError 1 ''failed'', RelayEmitDisconnect 1 ''gone'',
       RelayEmitNotice 0 ''hello'', RelayEmitError 0 ''failed'', RelayEmitDisconnect 0 ''gone'']
      (new_RelayPool (Some [''wss://a'']) False)) =
     [NoticeCall 1 ''wss://b'' ''hello'',
      NoticeCall 1 ''wss://a'' ''hello'', ErrorCall 2 ''wss://a'' ''failed'',
      DisconnectCall 3 ''wss://a'' ''gone'']"
proof -
  let ?w = "new_RelayPool (Some [''wss://a'']) False :: on_event world"
  let ?acts = "[AddOrGetRelay ''wss://b'', ConnectFulfilled 1 :: on_event action]"
  have h1: "registry_ok ?w" by code_simp
  have h2: "list_all (\<lambda>a. \<not> registers_error a) ?acts" by simp
  have h3: "list_all (\<lambda>a. \<not> registers_disconnect a) ?acts" by simp
  have m: "map_of (relayByUrl ?w) ''wss://a'' = Some 0" by code_simp
  have old: "error_listeners (relay_objs ?w ! 0) = []" "length (relay_objs ?w) = 1" by code_simp+
  have l: "length (relay_objs (run spec_deps ?acts (onerror 2 ?w))) = 2"
    "length (relay_objs (run spec_deps ?acts (ondisconnect 3 ?w))) = 2" by code_simp+
  have tr: "trace (run spec_deps
      [OnNotice 1, OnError 2, OnDisconnect 3, AddOrGetRelay ''wss://b'',
       ConnectFulfilled 0, ConnectFulfilled 1,
       RelayEmitNotice 1 ''hello'', RelayEmitError 1 ''failed'', RelayEmitDisconnect 1 ''gone'',
       RelayEmitNotice 0 ''hello'', RelayEmitError 0 ''failed'', RelayEmitDisconnect 0 ''gone'']
      ?w) =
     [NoticeCall 1 ''wss://b'' ''hello'',
      NoticeCall 1 ''wss://a'' ''hello'', ErrorCall 2 ''wss://a'' ''failed'',
      DisconnectCall 3 ''wss://a'' ''gone'']" by code_simp
  note t = observers_wiring[OF h1 h2 h3, where D = spec_deps and n = 1 and k = 0
      and u = "''wss://a''" and i = 0 and v = "?w" and msg = "''hello''" and r = "''wss://b''"
      and j = 0 and wn = "?w" and acts = "?acts"]
  have a: "1 \<in> set (noticecbs (run spec_deps ?acts (onnotice 1 ?w)))"
    using t[of 1] by blast
  from t[of 2] m have "error_listeners (relay_objs (onerror 2 ?w) ! 0) =
      error_listeners (relay_objs ?w ! 0) @ [(2, ''wss://a'')]" by blast
  then have b: "error_listeners (relay_objs (onerror 2 ?w) ! 0) = [(2, ''wss://a'')]"
    using old by simp
  have n: "length (relay_objs ?w) \<le> 1 \<and> 1 < length (relay_objs (run spec_deps ?acts (onerror 2 ?w)))"
    "length (relay_objs ?w) \<le> 1 \<and> 1 < length (relay_objs (run spec_deps ?acts (ondisconnect 3 ?w)))"
    using old l by simp_all
  from t[of 2] n(1)
  have c: "error_listeners (relay_objs (run spec_deps ?acts (onerror 2 ?w)) ! 1) = []"
    by blast
  from t[of 3] n(2)
  have d: "disconnect_listeners (relay_objs (run spec_deps ?acts (ondisconnect 3 ?w)) ! 1) = []"
    by blast
  show ?thesis using h1 h2 h3 a b c d tr by blast
qed

section \<open>Claims about the end of stored events\<close>

lemma sub_emit_event_fields:
  assumes "i < length (sub_objs w)"
  shows "length (sub_objs (sub_emit_event j e w)) = length (sub_objs w)"
    and "unsubbed (sub_objs (sub_emit_event j e w) ! i) = unsubbed (sub_objs w ! i)"
    and "sub_onEvent (sub_objs (sub_emit_event j e w) ! i) = sub_onEvent (sub_objs w ! i)"
    and "sub_relay (sub_objs (sub_emit_event j e w) ! i) = sub_relay (sub_objs w ! i)"
    and "sub_onEose (sub_objs (sub_emit_event j e w) ! i) = sub_onEose (sub_objs w ! i)"
    and "eventsBySub (sub_objs (sub_emit_event j e w) ! i) =
           (if j = i \<and> \<not> unsubbed (sub_objs w ! i)
            then map_option (\<lambda>l. l @ [e]) (eventsBySub (sub_objs w ! i))
            else eventsBySub (sub_objs w ! i))"
  using assms by (simp_all add: sub_emit_event_def Let_def nth_list_update)

lemma sub_emit_eose_fields:
  assumes "i < length (sub_objs w)"
  shows "length (sub_objs (sub_emit_eose j w)) = length (sub_objs w)"
    and "unsubbed (sub_objs (sub_emit_eose j w) ! i) = unsubbed (sub_objs w ! i)"
    and "sub_onEvent (sub_objs (sub_emit_eose j w) ! i) = sub_onEvent (sub_objs w ! i)"
    and "sub_relay (sub_objs (sub_emit_eose j w) ! i) = sub_relay (sub_objs w ! i)"
    and "sub_onEose (sub_objs (sub_emit_eose j w) ! i) = sub_onEose (sub_objs w ! i)"
    and "eventsBySub (sub_objs (sub_emit_eose j w) ! i) =
           (if j = i \<and> \<not> unsubbed (sub_objs w ! i) \<and> sub_onEose (sub_objs w ! i) \<noteq> None
            then None else eventsBySub (sub_objs w ! i))"
  using assms by (auto simp: sub_emit_eose_def Let_def nth_list_update split: option.splits)

lemma sub_emit_event_trace:
  assumes "i < length (sub_objs w)" "\<not> unsubbed (sub_objs w ! i)"
  shows "trace (sub_emit_event i e w) =
           trace w @ [OnEventCall (sub_onEvent (sub_objs w ! i)) e
                        (eventsBySub (sub_objs w ! i) = None) (Some (sub_relay (sub_objs w ! i)))]"
  using assms by (simp add: sub_emit_event_def Let_def)

lemma sub_emit_eose_trace:
  assumes "i < length (sub_objs w)" "\<not> unsubbed (sub_objs w ! i)"
      and "sub_onEose (sub_objs w ! i) = Some onEose"
  shows "trace (sub_emit_eose i w) =
           trace w @ [OnEoseCall onEose (eventsBySub (sub_objs w ! i)) (sub_relay (sub_objs w ! i))]"
  using assms by (simp add: sub_emit_eose_def Let_def)

lemma before_eose:
  assumes "i < length (sub_objs w)" and "\<not> unsubbed (sub_objs w ! i)"
      and "list_all wire_emission acts" and "SubEmitEose i \<notin> set acts"
  shows "i < length (sub_objs (run D acts w)) \<and>
         unsubbed (sub_objs (run D acts w) ! i) = unsubbed (sub_objs w ! i) \<and>
         sub_onEvent (sub_objs (run D acts w) ! i) = sub_onEvent (sub_objs w ! i) \<and>
         sub_relay (sub_objs (run D acts w) ! i) = sub_relay (sub_objs w ! i) \<and>
         sub_onEose (sub_objs (run D acts w) ! i) = sub_onEose (sub_objs w ! i) \<and>
         eventsBySub (sub_objs (run D acts w) ! i) =
           map_option (\<lambda>l. l @ events_on i acts) (eventsBySub (sub_objs w ! i))"
  using assms
proof (induction acts arbitrary: w)
  case Nil
  then show ?case by (simp add: run_def option.map_ident)
next
  case (Cons a acts)
  have r: "run D (a # acts) w = run D acts (step D a w)" by (simp add: run_def)
  have rest: "list_all wire_emission acts" "SubEmitEose i \<notin> set acts"
    using Cons.prems(3,4) by simp_all
  show ?case
  proof (cases a)
    case (SubEmitEvent j e)
    note f = sub_emit_event_fields[OF Cons.prems(1), of j e]
    have l: "i < length (sub_objs (step D a w))" using f(1) Cons.prems(1) SubEmitEvent by simp
    have u: "\<not> unsubbed (sub_objs (step D a w) ! i)" using f(2) Cons.prems(2) SubEmitEvent by simp
    show ?thesis
      unfolding r using Cons.IH[OF l u rest] f Cons.prems(2) SubEmitEvent
      by (cases "eventsBySub (sub_objs w ! i)") auto
  next
    case (SubEmitEose j)
    then have ji: "j \<noteq> i" using Cons.prems(4) by auto
    note f = sub_emit_eose_fields[OF Cons.prems(1), of j]
    have l: "i < length (sub_objs (step D a w))" using f(1) Cons.prems(1) SubEmitEose by simp
    have u: "\<not> unsubbed (sub_objs (step D a w) ! i)" using f(2) Cons.prems(2) SubEmitEose by simp
    show ?thesis
      unfolding r using Cons.IH[OF l u rest] f ji SubEmitEose by simp
  qed (use Cons.prems(3) in simp_all)
qed

lemma after_eose:
  assumes "i < length (sub_objs w)" and "eventsBySub (sub_objs w ! i) = None"
      and "list_all wire_emission acts"
  shows "i < length (sub_objs (run D acts w)) \<and>
         unsubbed (sub_objs (run D acts w) ! i) = unsubbed (sub_objs w ! i) \<and>
         sub_onEvent (sub_objs (run D acts w) ! i) = sub_onEvent (sub_objs w ! i) \<and>
         sub_relay (sub_objs (run D acts w) ! i) = sub_relay (sub_objs w ! i) \<and>
         sub_onEose (sub_objs (run D acts w) ! i) = sub_onEose (sub_objs w ! i) \<and>
         eventsBySub (sub_objs (run D acts w) ! i) = None"
  using assms
proof (induction acts arbitrary: w)
  case Nil
  then show ?case by (simp add: run_def)
next
  case (Cons a acts)
  have r: "run D (a # acts) w = run D acts (step D a w)" by (simp add: run_def)
  have rest: "list_all wire_emission acts" using Cons.prems(3) by simp
  show ?case
  proof (cases a)
    case (SubEmitEvent j e)
    note f = sub_emit_event_fields[OF Cons.prems(1), of j e]
    have l: "i < length (sub_objs (step D a w))" using f(1) Cons.prems(1) SubEmitEvent by simp
    have n: "eventsBySub (sub_objs (step D a w) ! i) = None"
      using f(6) Cons.prems(2) SubEmitEvent by simp
    show ?thesis unfolding r using Cons.IH[OF l n rest] f SubEmitEvent by simp
  next
    case (SubEmitEose j)
    note f = sub_emit_eose_fields[OF Cons.prems(1), of j]
    have l: "i < length (sub_objs (step D a w))" using f(1) Cons.prems(1) SubEmitEose by simp
    have n: "eventsBySub (sub_objs (step D a w) ! i) = None"
      using f(6) Cons.prems(2) SubEmitEose by simp
    show ?thesis unfolding r using Cons.IH[OF l n rest] f SubEmitEose by simp
  qed (use Cons.prems(3) in simp_all)
qed

lemma events_trace:
  assumes "i < length (sub_objs w)" and "\<not> unsubbed (sub_objs w ! i)"
  shows "trace (run D (map (SubEmitEvent i) es) w) =
           trace w @ map (\<lambda>e. OnEventCall (sub_onEvent (sub_objs w ! i)) e
                           (eventsBySub (sub_objs w ! i) = None)
                           (Some (sub_relay (sub_objs w ! i)))) es"
  using assms
proof (induction es arbitrary: w)
  case Nil
  show ?case by (simp add: run_def)
next
  case (Cons e es)
  have r: "run D (map (SubEmitEvent i) (e # es)) w =
      run D (map (SubEmitEvent i) es) (sub_emit_event i e w)" by (simp add: run_def)
  note f = sub_emit_event_fields[OF Cons.prems(1), of i e]
  have l: "i < length (sub_objs (sub_emit_event i e w))" using f(1) Cons.prems(1) by simp
  have u: "\<not> unsubbed (sub_objs (sub_emit_event i e w) ! i)" using f(2) Cons.prems(2) by simp
  have n: "(eventsBySub (sub_objs (sub_emit_event i e w) ! i) = None) =
      (eventsBySub (sub_objs w ! i) = None)"
    using f(6) Cons.prems(2) by simp
  show ?case
    unfolding r using Cons.IH[OF l u] f(3,4) n sub_emit_event_trace[OF Cons.prems, of e]
    by simp
qed

lemma run_append: "run D (xs @ ys) w = run D ys (run D xs w)"
  by (simp add: run_def)

lemma events_on_only: "events_on i (map (SubEmitEvent i) es) = es"
  by (induction es) simp_all

text \<open>
  C4.  Take a wire subscription just opened with an \<open>onEose\<close>.  If it receives events,
  then the end marker, then events, the calls made are: the merged \<open>onEvent\<close> with each
  event before the marker and the flag false, \<open>onEose\<close> once with the list of exactly
  those events, then \<open>onEvent\<close> with each later event and the flag true.  The same holds
  when the events and end markers of other wire subscriptions come in between: the list
  given to \<open>onEose\<close> holds the events of this subscription only, and the accumulator is
  \<open>undefined\<close> after the marker.
\<close>

theorem eose_accounting:
  assumes "i < length (sub_objs w)" and "\<not> unsubbed (sub_objs w ! i)"
      and "sub_onEose (sub_objs w ! i) = Some onEose"
      and "eventsBySub (sub_objs w ! i) = Some []"
      and "sub_onEvent (sub_objs w ! i) = onEvent" and "sub_relay (sub_objs w ! i) = r"
      and "list_all wire_emission pre" and "SubEmitEose i \<notin> set pre"
      and "list_all wire_emission post"
  shows "trace (run D (map (SubEmitEvent i) before @ [SubEmitEose i] @ map (SubEmitEvent i) after) w) =
           trace w @ map (\<lambda>e. OnEventCall onEvent e False (Some r)) before @
             [OnEoseCall onEose (Some before) r] @
             map (\<lambda>e. OnEventCall onEvent e True (Some r)) after \<and>
         trace (sub_emit_event i e (run D pre w)) =
           trace (run D pre w) @ [OnEventCall onEvent e False (Some r)] \<and>
         trace (sub_emit_eose i (run D pre w)) =
           trace (run D pre w) @ [OnEoseCall onEose (Some (events_on i pre)) r] \<and>
         eventsBySub (sub_objs (sub_emit_eose i (run D pre w)) ! i) = None \<and>
         trace (sub_emit_event i e (run D post (sub_emit_eose i (run D pre w)))) =
           trace (run D post (sub_emit_eose i (run D pre w))) @
             [OnEventCall onEvent e True (Some r)]"
proof -
  have interleaved: "\<And>pre. list_all wire_emission pre \<Longrightarrow> SubEmitEose i \<notin> set pre \<Longrightarrow>
      i < length (sub_objs (run D pre w)) \<and>
      \<not> unsubbed (sub_objs (run D pre w) ! i) \<and>
      sub_onEvent (sub_objs (run D pre w) ! i) = onEvent \<and>
      sub_relay (sub_objs (run D pre w) ! i) = r \<and>
      sub_onEose (sub_objs (run D pre w) ! i) = Some onEose \<and>
      eventsBySub (sub_objs (run D pre w) ! i) = Some (events_on i pre)"
    using before_eose[OF assms(1,2), of _ D] assms(2-6) by simp
  have at_eose: "\<And>pre. list_all wire_emission pre \<Longrightarrow> SubEmitEose i \<notin> set pre \<Longrightarrow>
      trace (sub_emit_eose i (run D pre w)) =
        trace (run D pre w) @ [OnEoseCall onEose (Some (events_on i pre)) r] \<and>
      i < length (sub_objs (sub_emit_eose i (run D pre w))) \<and>
      \<not> unsubbed (sub_objs (sub_emit_eose i (run D pre w)) ! i) \<and>
      sub_onEvent (sub_objs (sub_emit_eose i (run D pre w)) ! i) = onEvent \<and>
      sub_relay (sub_objs (sub_emit_eose i (run D pre w)) ! i) = r \<and>
      eventsBySub (sub_objs (sub_emit_eose i (run D pre w)) ! i) = None"
  proof -
    fix pre :: "'a action list"
    assume p: "list_all wire_emission pre" "SubEmitEose i \<notin> set pre"
    note s = interleaved[OF p]
    have l: "i < length (sub_objs (run D pre w))" using s by blast
    have u: "\<not> unsubbed (sub_objs (run D pre w) ! i)" using s by blast
    have oe: "sub_onEose (sub_objs (run D pre w) ! i) = Some onEose" using s by blast
    show "trace (sub_emit_eose i (run D pre w)) =
        trace (run D pre w) @ [OnEoseCall onEose (Some (events_on i pre)) r] \<and>
      i < length (sub_objs (sub_emit_eose i (run D pre w))) \<and>
      \<not> unsubbed (sub_objs (sub_emit_eose i (run D pre w)) ! i) \<and>
      sub_onEvent (sub_objs (sub_emit_eose i (run D pre w)) ! i) = onEvent \<and>
      sub_relay (sub_objs (sub_emit_eose i (run D pre w)) ! i) = r \<and>
      eventsBySub (sub_objs (sub_emit_eose i (run D pre w)) ! i) = None"
      using sub_emit_eose_trace[OF l u oe] sub_emit_eose_fields[OF l, of i] s by simp
  qed
  have b: "trace (sub_emit_event i e (run D pre w)) =
           trace (run D pre w) @ [OnEventCall onEvent e False (Some r)]"
  proof -
    note s = interleaved[OF assms(7,8)]
    have l: "i < length (sub_objs (run D pre w))" using s by blast
    have u: "\<not> unsubbed (sub_objs (run D pre w) ! i)" using s by blast
    show ?thesis using sub_emit_event_trace[OF l u, of e] s by simp
  qed
  note c = at_eose[OF assms(7,8)]
  have d: "trace (sub_emit_event i e (run D post (sub_emit_eose i (run D pre w)))) =
           trace (run D post (sub_emit_eose i (run D pre w))) @
             [OnEventCall onEvent e True (Some r)]"
  proof -
    let ?v = "sub_emit_eose i (run D pre w)"
    have l0: "i < length (sub_objs ?v)" and n0: "eventsBySub (sub_objs ?v ! i) = None"
      using c by blast+
    note s = after_eose[OF l0 n0 assms(9), of D]
    have l: "i < length (sub_objs (run D post ?v))" using s by blast
    have u: "\<not> unsubbed (sub_objs (run D post ?v) ! i)" using s c by simp
    show ?thesis using sub_emit_event_trace[OF l u, of e] s c by simp
  qed
  have a: "trace (run D (map (SubEmitEvent i) before @ [SubEmitEose i] @ map (SubEmitEvent i) after) w) =
           trace w @ map (\<lambda>e. OnEventCall onEvent e False (Some r)) before @
             [OnEoseCall onEose (Some before) r] @
             map (\<lambda>e. OnEventCall onEvent e True (Some r)) after"
  proof -
    let ?pre = "map (SubEmitEvent i) before :: 'a action list"
    have p: "list_all wire_emission ?pre" "SubEmitEose i \<notin> set ?pre"
      by (auto simp: list_all_iff)
    note e = at_eose[OF p]
    let ?v = "sub_emit_eose i (run D ?pre w)"
    have l: "i < length (sub_objs ?v)" and u: "\<not> unsubbed (sub_objs ?v ! i)" using e by blast+
    have t1: "trace (run D ?pre w) =
        trace w @ map (\<lambda>e. OnEventCall onEvent e False (Some r)) before"
      using events_trace[OF assms(1,2), of D before] assms(4,5,6) by simp
    have t2: "trace ?v = trace (run D ?pre w) @ [OnEoseCall onEose (Some before) r]"
      using e by (simp add: events_on_only)
    have t3: "trace (run D (map (SubEmitEvent i) after) ?v) =
        trace ?v @ map (\<lambda>e. OnEventCall onEvent e True (Some r)) after"
      using events_trace[OF l u, of D after] e by simp
    have "run D (?pre @ [SubEmitEose i] @ map (SubEmitEvent i) after) w =
        run D (map (SubEmitEvent i) after) ?v"
      by (simp add: run_append) (simp add: run_def)
    then show ?thesis using t1 t2 t3 by simp
  qed
  show ?thesis using a b c d by blast
qed

text \<open>
  An instance of C4: three relays, whose events and end markers interleave; \<open>onEose\<close> is
  called once for each relay with that relay's events.
\<close>

theorem eose_accounting_witness:
  "0 < length (sub_objs world_three_relays) \<and>
   \<not> unsubbed (sub_objs world_three_relays ! 0) \<and>
   sub_onEose (sub_objs world_three_relays ! 0) = Some 7 \<and>
   eventsBySub (sub_objs world_three_relays ! 0) = Some [] \<and>
   sub_relay (sub_objs world_three_relays ! 0) = ''wss://a'' \<and>
   list_all wire_emission
     [SubEmitEvent 0 event_1, SubEmitEvent 1 event_2, SubEmitEose 1, SubEmitEvent 0 event_2,
      SubEmitEose 2 :: on_event action] \<and>
   SubEmitEose 0 \<notin> set
     [SubEmitEvent 0 event_1, SubEmitEvent 1 event_2, SubEmitEose 1, SubEmitEvent 0 event_2,
      SubEmitEose 2 :: on_event action] \<and>
   list_all wire_emission [SubEmitEvent 1 event_1 :: on_event action] \<and>
   trace (sub_emit_eose 0 (run spec_deps
       [SubEmitEvent 0 event_1, SubEmitEvent 1 event_2, SubEmitEose 1, SubEmitEvent 0 event_2,
        SubEmitEose 2] world_three_relays)) =
     trace (run spec_deps
       [SubEmitEvent 0 event_1, SubEmitEvent 1 event_2, SubEmitEose 1, SubEmitEvent 0 event_2,
        SubEmitEose 2] world_three_relays) @
     [OnEoseCall 7 (Some [event_1, event_2]) ''wss://a''] \<and>
   trace (run spec_deps
       [SubEmitEvent 0 event_1, SubEmitEvent 1 event_2, SubEmitEose 1, SubEmitEvent 0 event_2,
        SubEmitEose 2, SubEmitEose 0, SubEmitEvent 1 event_1, SubEmitEvent 0 event_1]
       world_three_relays) =
     [OnEventCall (Merged [Wrapped (Caller 0) no_options]) event_1 False (Some ''wss://a''),
      OnEventCall (Merged [Wrapped (Caller 0) no_options]) event_2 False (Some ''wss://b''),
      OnEoseCall 7 (Some [event_2]) ''wss://b'',
      OnEventCall (Merged [Wrapped (Caller 0) no_options]) event_2 False (Some ''wss://a''),
      OnEoseCall 7 (Some []) ''wss://c'',
      OnEoseCall 7 (Some [event_1, event_2]) ''wss://a'',
      OnEventCall (Merged [Wrapped (Caller 0) no_options]) event_1 True (Some ''wss://b''),
      OnEventCall (Merged [Wrapped (Caller 0) no_options]) event_1 True (Some ''wss://a'')]"
proof -
  let ?pre = "[SubEmitEvent 0 event_1, SubEmitEvent 1 event_2, SubEmitEose 1,
      SubEmitEvent 0 event_2, SubEmitEose 2 :: on_event action]"
  let ?post = "[SubEmitEvent 1 event_1 :: on_event action]"
  have h1: "0 < length (sub_objs world_three_relays)" by code_simp
  have h2: "\<not> unsubbed (sub_objs world_three_relays ! 0)" by code_simp
  have h3: "sub_onEose (sub_objs world_three_relays ! 0) = Some 7" by code_simp
  have h4: "eventsBySub (sub_objs world_three_relays ! 0) = Some []" by code_simp
  have h5: "sub_onEvent (sub_objs world_three_relays ! 0) = Merged [Wrapped (Caller 0) no_options]"
    by code_simp
  have h6: "sub_relay (sub_objs world_three_relays ! 0) = ''wss://a''" by code_simp
  have h7: "list_all wire_emission ?pre" by simp
  have h8: "SubEmitEose 0 \<notin> set ?pre" by simp
  have h9: "list_all wire_emission ?post" by simp
  have ev: "events_on 0 ?pre = [event_1, event_2]" by simp
  have full: "trace (run spec_deps
       [SubEmitEvent 0 event_1, SubEmitEvent 1 event_2, SubEmitEose 1, SubEmitEvent 0 event_2,
        SubEmitEose 2, SubEmitEose 0, SubEmitEvent 1 event_1, SubEmitEvent 0 event_1]
       world_three_relays) =
     [OnEventCall (Merged [Wrapped (Caller 0) no_options]) event_1 False (Some ''wss://a''),
      OnEventCall (Merged [Wrapped (Caller 0) no_options]) event_2 False (Some ''wss://b''),
      OnEoseCall 7 (Some [event_2]) ''wss://b'',
      OnEventCall (Merged [Wrapped (Caller 0) no_options]) event_2 False (Some ''wss://a''),
      OnEoseCall 7 (Some []) ''wss://c'',
      OnEoseCall 7 (Some [event_1, event_2]) ''wss://a'',
      OnEventCall (Merged [Wrapped (Caller 0) no_options]) event_1 True (Some ''wss://b''),
      OnEventCall (Merged [Wrapped (Caller 0) no_options]) event_1 True (Some ''wss://a'')]"
    by code_simp
  from eose_accounting[OF h1 h2 h3 h4 h5 h6 h7 h8 h9, of spec_deps]
  have "trace (sub_emit_eose 0 (run spec_deps ?pre world_three_relays)) =
     trace (run spec_deps ?pre world_three_relays) @
     [OnEoseCall 7 (Some (events_on 0 ?pre)) ''wss://a'']" by blast
  then have at: "trace (sub_emit_eose 0 (run spec_deps ?pre world_three_relays)) =
     trace (run spec_deps ?pre world_three_relays) @
     [OnEoseCall 7 (Some [event_1, event_2]) ''wss://a'']" unfolding ev .
  show ?thesis using h1 h2 h3 h4 h6 h7 h8 h9 at full by blast
qed

end
